theory Spec2Isabelle
  imports Main
begin

section \<open>Values and the JSON built-ins of the host\<close>

text \<open>
  The library stores arbitrary JavaScript values (\<^verbatim>\<open>Record<string, unknown>\<close>) and
  hands them to \<^verbatim>\<open>JSON.stringify\<close> and \<^verbatim>\<open>JSON.parse\<close>. These two are built-ins of the
  host, not code of the repository; they are modelled after ECMA-262 (25.5) on the
  following fragment of values: \<^verbatim>\<open>undefined\<close>, \<^verbatim>\<open>null\<close>, booleans, integral numbers
  (exactly representable ones, so that printing and reading are exact), strings of
  one-byte characters, arrays, and plain objects given as their property list in
  insertion order (keys distinct and not integer-like, so that the property order is the
  insertion order). Number literals with a fraction or an exponent denote values outside
  this fragment and are rejected by \<open>parse_unsigned\<close>; no statement below evaluates
  \<open>JSON_parse\<close> on such a text.
\<close>

datatype jsval =
    JUndefined
  | JNull
  | JBool bool
  | JNum int
  | JStr string
  | JArr "jsval list"
  | JObj "(string \<times> jsval) list"

definition dquote :: char where
  "dquote = CHR 0x22"

definition backslash :: char where
  "backslash = CHR 0x5C"

definition hex_digit :: "nat \<Rightarrow> char" where
  "hex_digit d = (if d < 10 then char_of (48 + d) else char_of (87 + d))"

definition quote_char :: "char \<Rightarrow> string" where
  "quote_char c =
     (if c = dquote then [backslash, dquote]
      else if c = backslash then [backslash, backslash]
      else if c = CHR 0x08 then [backslash, CHR ''b'']
      else if c = CHR 0x0C then [backslash, CHR ''f'']
      else if c = CHR 0x0A then [backslash, CHR ''n'']
      else if c = CHR 0x0D then [backslash, CHR ''r'']
      else if c = CHR 0x09 then [backslash, CHR ''t'']
      else if (of_char c :: nat) < 32
        then [backslash, CHR ''u'', CHR ''0'', CHR ''0'',
              hex_digit (of_char c div 16), hex_digit (of_char c mod 16)]
      else [c])"

definition QuoteJSONString :: "string \<Rightarrow> string" where
  "QuoteJSONString s = [dquote] @ concat (map quote_char s) @ [dquote]"

fun nat_digits :: "nat \<Rightarrow> string" where
  "nat_digits n = (if n < 10 then [char_of (48 + n)] else nat_digits (n div 10) @ [char_of (48 + n mod 10)])"

definition Number_toString :: "int \<Rightarrow> string" where
  "Number_toString i = (if i < 0 then CHR ''-'' # nat_digits (nat (- i)) else nat_digits (nat i))"

fun join :: "string \<Rightarrow> string list \<Rightarrow> string" where
  "join sep [] = []"
| "join sep [x] = x"
| "join sep (x # y # ys) = x @ sep @ join sep (y # ys)"

fun JSON_stringify :: "jsval \<Rightarrow> string option" where
  "JSON_stringify JUndefined = None"
| "JSON_stringify JNull = Some ''null''"
| "JSON_stringify (JBool b) = Some (if b then ''true'' else ''false'')"
| "JSON_stringify (JNum i) = Some (Number_toString i)"
| "JSON_stringify (JStr s) = Some (QuoteJSONString s)"
| "JSON_stringify (JArr vs) =
     Some (''['' @ join '','' (map (\<lambda>v. case JSON_stringify v of None \<Rightarrow> ''null'' | Some t \<Rightarrow> t) vs) @ '']'')"
| "JSON_stringify (JObj kvs) =
     Some (''{'' @ join '','' (concat (map (\<lambda>(k, v). case JSON_stringify v of
                  None \<Rightarrow> [] | Some t \<Rightarrow> [QuoteJSONString k @ '':'' @ t]) kvs)) @ ''}'')"

datatype js_error = SyntaxError

definition is_ws :: "char \<Rightarrow> bool" where
  "is_ws c = (c = CHR 0x20 \<or> c = CHR 0x09 \<or> c = CHR 0x0A \<or> c = CHR 0x0D)"

definition skip_ws :: "string \<Rightarrow> string" where
  "skip_ws s = dropWhile is_ws s"

definition is_digit :: "char \<Rightarrow> bool" where
  "is_digit c = (48 \<le> (of_char c :: nat) \<and> (of_char c :: nat) \<le> 57)"

definition digits_value :: "string \<Rightarrow> int" where
  "digits_value ds = foldl (\<lambda>acc c. 10 * acc + (int (of_char c) - 48)) 0 ds"

definition hex_value :: "char \<Rightarrow> nat option" where
  "hex_value c =
     (let n = (of_char c :: nat) in
      if 48 \<le> n \<and> n \<le> 57 then Some (n - 48)
      else if 65 \<le> n \<and> n \<le> 70 then Some (n - 55)
      else if 97 \<le> n \<and> n \<le> 102 then Some (n - 87)
      else None)"

definition parse_unsigned :: "string \<Rightarrow> (int \<times> string) option" where
  "parse_unsigned s =
     (let ds = takeWhile is_digit s; r = dropWhile is_digit s in
      if ds = [] then None
      else if hd ds = CHR ''0'' \<and> tl ds \<noteq> [] then None
      else if r \<noteq> [] \<and> (hd r = CHR ''.'' \<or> hd r = CHR ''e'' \<or> hd r = CHR ''E'') then None
      else Some (digits_value ds, r))"

definition parse_number :: "string \<Rightarrow> (int \<times> string) option" where
  "parse_number s =
     (case s of
        [] \<Rightarrow> None
      | c # cs \<Rightarrow>
          if c = CHR ''-'' then map_option (\<lambda>(i, r). (- i, r)) (parse_unsigned cs)
          else parse_unsigned s)"

fun parse_chars :: "string \<Rightarrow> (string \<times> string) option" where
  "parse_chars [] = None"
| "parse_chars (c # cs) =
     (if c = dquote then Some ([], cs)
      else if c = backslash then
        (case cs of
           [] \<Rightarrow> None
         | e # r \<Rightarrow>
             if e = CHR ''u'' then
               (case r of
                  h1 # h2 # h3 # h4 # r' \<Rightarrow>
                    (case (hex_value h1, hex_value h2, hex_value h3, hex_value h4) of
                       (Some a, Some b, Some c', Some d) \<Rightarrow>
                         if a = 0 \<and> b = 0
                         then map_option (\<lambda>(t, q). (char_of (16 * c' + d) # t, q)) (parse_chars r')
                         else None
                     | _ \<Rightarrow> None)
                | _ \<Rightarrow> None)
             else
               (case (if e = dquote then Some dquote
                      else if e = backslash then Some backslash
                      else if e = CHR ''/'' then Some (CHR ''/'')
                      else if e = CHR ''b'' then Some (CHR 0x08)
                      else if e = CHR ''f'' then Some (CHR 0x0C)
                      else if e = CHR ''n'' then Some (CHR 0x0A)
                      else if e = CHR ''r'' then Some (CHR 0x0D)
                      else if e = CHR ''t'' then Some (CHR 0x09)
                      else None) of
                  None \<Rightarrow> None
                | Some x \<Rightarrow> map_option (\<lambda>(t, q). (x # t, q)) (parse_chars r)))
      else if (of_char c :: nat) < 32 then None
      else map_option (\<lambda>(t, q). (c # t, q)) (parse_chars cs))"

fun obj_put :: "(string \<times> jsval) list \<Rightarrow> string \<Rightarrow> jsval \<Rightarrow> (string \<times> jsval) list" where
  "obj_put [] k v = [(k, v)]"
| "obj_put ((k', v') # kvs) k v = (if k' = k then (k, v) # kvs else (k', v') # obj_put kvs k v)"

fun parse_value :: "nat \<Rightarrow> string \<Rightarrow> (jsval \<times> string) option"
  and parse_elements :: "nat \<Rightarrow> string \<Rightarrow> (jsval list \<times> string) option"
  and parse_members :: "nat \<Rightarrow> string \<Rightarrow> ((string \<times> jsval) list \<times> string) option" where
  "parse_value 0 s = None"
| "parse_value (Suc n) s =
     (case skip_ws s of
        [] \<Rightarrow> None
      | c # cs \<Rightarrow>
          if c = CHR ''n'' then (if take 3 cs = ''ull'' then Some (JNull, drop 3 cs) else None)
          else if c = CHR ''t'' then (if take 3 cs = ''rue'' then Some (JBool True, drop 3 cs) else None)
          else if c = CHR ''f'' then (if take 4 cs = ''alse'' then Some (JBool False, drop 4 cs) else None)
          else if c = dquote then map_option (\<lambda>(t, r). (JStr t, r)) (parse_chars cs)
          else if c = CHR ''['' then
            (case skip_ws cs of
               [] \<Rightarrow> None
             | d # r \<Rightarrow>
                 if d = CHR '']'' then Some (JArr [], r)
                 else map_option (\<lambda>(vs, q). (JArr vs, q)) (parse_elements n cs))
          else if c = CHR ''{'' then
            (case skip_ws cs of
               [] \<Rightarrow> None
             | d # r \<Rightarrow>
                 if d = CHR ''}'' then Some (JObj [], r)
                 else map_option (\<lambda>(kvs, q). (JObj (foldl (\<lambda>acc (k, v). obj_put acc k v) [] kvs), q))
                        (parse_members n cs))
          else map_option (\<lambda>(i, r). (JNum i, r)) (parse_number (c # cs)))"
| "parse_elements 0 s = None"
| "parse_elements (Suc n) s =
     (case parse_value n s of
        None \<Rightarrow> None
      | Some (v, r) \<Rightarrow>
          (case skip_ws r of
             [] \<Rightarrow> None
           | d # q \<Rightarrow>
               if d = CHR '','' then map_option (\<lambda>(vs, q'). (v # vs, q')) (parse_elements n q)
               else if d = CHR '']'' then Some ([v], q)
               else None))"
| "parse_members 0 s = None"
| "parse_members (Suc n) s =
     (case skip_ws s of
        [] \<Rightarrow> None
      | c # cs \<Rightarrow>
          if c \<noteq> dquote then None
          else
            (case parse_chars cs of
               None \<Rightarrow> None
             | Some (k, r) \<Rightarrow>
                 (case skip_ws r of
                    [] \<Rightarrow> None
                  | d # q \<Rightarrow>
                      if d \<noteq> CHR '':'' then None
                      else
                        (case parse_value n q of
                           None \<Rightarrow> None
                         | Some (v, r') \<Rightarrow>
                             (case skip_ws r' of
                                [] \<Rightarrow> None
                              | d' # q' \<Rightarrow>
                                  if d' = CHR '','' then map_option (\<lambda>(kvs, z). ((k, v) # kvs, z)) (parse_members n q')
                                  else if d' = CHR ''}'' then Some ([(k, v)], q')
                                  else None)))))"

definition JSON_parse :: "string \<Rightarrow> js_error + jsval" where
  "JSON_parse s =
     (case parse_value (2 * length s + 2) s of
        None \<Rightarrow> Inl SyntaxError
      | Some (v, r) \<Rightarrow> if skip_ws r = [] then Inr v else Inl SyntaxError)"

text \<open>
  The parser is a recursive descent over the text. Its first argument bounds the depth of
  the recursion. Of two nested calls in a row, one happens after at least one character
  has been consumed, which is why \<open>JSON_parse\<close> starts with \<open>2 * length s + 2\<close>.
\<close>

section \<open>The serializer (src/src/storage.ts, lines 279-290)\<close>

text \<open>
  \<^verbatim>\<open>JSONSerializer\<close> is an interface with \<^verbatim>\<open>parse\<close> and \<^verbatim>\<open>stringify\<close>. A JavaScript
  \<^verbatim>\<open>null\<close> result is the value \<open>JNull\<close>. \<^verbatim>\<open>stringify\<close> is declared to return a string,
  but \<^verbatim>\<open>JSON.stringify\<close> returns \<^verbatim>\<open>undefined\<close> on \<^verbatim>\<open>undefined\<close>; \<open>None\<close> stands for that.
\<close>

record JSONSerializer =
  parse :: "string \<Rightarrow> jsval"
  stringify :: "jsval \<Rightarrow> string option"

definition defaultJSONSerializer :: JSONSerializer where
  "defaultJSONSerializer =
     \<lparr> parse = (\<lambda>str. case JSON_parse str of Inr v \<Rightarrow> v | Inl e \<Rightarrow> JNull),
       stringify = (\<lambda>v. JSON_stringify v) \<rparr>"

section \<open>The host environment and the provider (src/providers/localStorage.ts)\<close>

text \<open>
  The host is the pair of \<^verbatim>\<open>typeof window !== 'undefined'\<close> and the content of
  \<^verbatim>\<open>localStorage\<close>, a map from strings to strings. \<^verbatim>\<open>setItem\<close> converts its second
  argument to a string, which turns \<^verbatim>\<open>undefined\<close> into the text \<^verbatim>\<open>undefined\<close>. A storage
  quota is not modelled.
\<close>

record host =
  window_defined :: bool
  localStorage :: "string \<rightharpoonup> string"

definition localStorage_getItem :: "host \<Rightarrow> string \<Rightarrow> string option" where
  "localStorage_getItem w k = localStorage w k"

definition localStorage_setItem :: "host \<Rightarrow> string \<Rightarrow> string option \<Rightarrow> host" where
  "localStorage_setItem w k s =
     w\<lparr>localStorage := (localStorage w)(k \<mapsto> (case s of None \<Rightarrow> ''undefined'' | Some t \<Rightarrow> t))\<rparr>"

definition localStorage_removeItem :: "host \<Rightarrow> string \<Rightarrow> host" where
  "localStorage_removeItem w k = w\<lparr>localStorage := (localStorage w)(k := None)\<rparr>"

definition localStorage_clear :: "host \<Rightarrow> host" where
  "localStorage_clear w = w\<lparr>localStorage := Map.empty\<rparr>"

record StorageOptions =
  prefix :: "string option"
  jsonSerializer :: JSONSerializer

text \<open>\<^verbatim>\<open>options.prefix ? `${options.prefix}${key}` : key\<close>: an empty prefix is falsy.\<close>

definition prefixedKey :: "StorageOptions \<Rightarrow> string \<Rightarrow> string" where
  "prefixedKey opts k =
     (case prefix opts of
        None \<Rightarrow> k
      | Some p \<Rightarrow> if p = [] then k else p @ k)"

definition LocalStorageProvider_get :: "string \<Rightarrow> StorageOptions \<Rightarrow> host \<Rightarrow> jsval" where
  "LocalStorageProvider_get k opts w =
     (if \<not> window_defined w then JNull
      else case localStorage_getItem w (prefixedKey opts k) of
             None \<Rightarrow> JNull
           | Some strVal \<Rightarrow> parse (jsonSerializer opts) strVal)"

definition LocalStorageProvider_set ::
  "string \<Rightarrow> jsval \<Rightarrow> StorageOptions \<Rightarrow> host \<Rightarrow> jsval \<times> host" where
  "LocalStorageProvider_set k v opts w =
     (if \<not> window_defined w then (JNull, w)
      else let strVal = stringify (jsonSerializer opts) v
           in (v, localStorage_setItem w (prefixedKey opts k) strVal))"

definition LocalStorageProvider_delete :: "string \<Rightarrow> StorageOptions \<Rightarrow> host \<Rightarrow> jsval \<times> host" where
  "LocalStorageProvider_delete k opts w =
     (if \<not> window_defined w then (JNull, w)
      else let oldValue = LocalStorageProvider_get k opts w
           in (oldValue, localStorage_removeItem w (prefixedKey opts k)))"

definition LocalStorageProvider_clear :: "StorageOptions \<Rightarrow> host \<Rightarrow> host" where
  "LocalStorageProvider_clear opts w =
     (if \<not> window_defined w then w else localStorage_clear w)"

section \<open>Events, subscriber sets and the Storage object (src/src/storage.ts)\<close>

datatype StorageAction = set_action | delete_action | clear_action

fun action_name :: "StorageAction \<Rightarrow> string" where
  "action_name set_action = ''set''"
| "action_name delete_action = ''delete''"
| "action_name clear_action = ''clear''"

text \<open>
  \<^verbatim>\<open>{ type, key, value }\<close>; the key of a clear event is \<^verbatim>\<open>undefined\<close> (\<open>None\<close>) and its
  value is \<open>JUndefined\<close>.
\<close>

record StorageEvent =
  ev_type :: StorageAction
  ev_key :: "string option"
  ev_value :: jsval

text \<open>The template literal \<^verbatim>\<open>${event.key}\<close> prints an undefined key as \<^verbatim>\<open>undefined\<close>.\<close>

definition key_text :: "string option \<Rightarrow> string" where
  "key_text k = (case k of None \<Rightarrow> ''undefined'' | Some s \<Rightarrow> s)"

text \<open>
  A callback is a function object; only its identity matters to a \<^verbatim>\<open>Set\<close>, so it is a
  number. A \<^verbatim>\<open>Set\<close> is its list of entries in insertion order (ECMA-262, 24.2):
  \<^verbatim>\<open>add\<close> appends a value that is not in the set, \<^verbatim>\<open>delete\<close> replaces the entry by the
  empty marker (\<open>None\<close>), and \<^verbatim>\<open>forEach\<close> walks the list by index, reading its current
  length at every step.
\<close>

type_synonym callback = nat

type_synonym jsset = "callback option list"

definition Set_add :: "jsset \<Rightarrow> callback \<Rightarrow> jsset" where
  "Set_add S c = (if Some c \<in> set S then S else S @ [Some c])"

definition Set_delete :: "jsset \<Rightarrow> callback \<Rightarrow> jsset" where
  "Set_delete S c = map (\<lambda>e. if e = Some c then None else e) S"

fun Set_values :: "jsset \<Rightarrow> callback list" where
  "Set_values [] = []"
| "Set_values (None # es) = Set_values es"
| "Set_values (Some c # es) = c # Set_values es"

text \<open>
  The \<^verbatim>\<open>Map\<close> from patterns to sets holds references to set objects: \<open>subscribersMap\<close>
  is the list of its entries (no entry is ever deleted), each with the address of its
  set in \<open>heap\<close>. \<^verbatim>\<open>Map.set\<close> on a present key keeps the position of the entry.
  \<open>calls\<close> records every invocation of a callback with the event it received.
\<close>

record Storage =
  options :: StorageOptions
  subscribersMap :: "(string \<times> nat) list"
  heap :: "jsset list"
  calls :: "(callback \<times> StorageEvent) list"

definition Storage_new :: "StorageOptions option \<Rightarrow> Storage" where
  "Storage_new opts =
     \<lparr> options = (case opts of
                    None \<Rightarrow> \<lparr> prefix = None, jsonSerializer = defaultJSONSerializer \<rparr>
                  | Some x \<Rightarrow> x),
       subscribersMap = [], heap = [], calls = [] \<rparr>"

definition Map_get :: "(string \<times> nat) list \<Rightarrow> string \<Rightarrow> nat option" where
  "Map_get m k = map_of m k"

fun Map_set :: "(string \<times> nat) list \<Rightarrow> string \<Rightarrow> nat \<Rightarrow> (string \<times> nat) list" where
  "Map_set [] k a = [(k, a)]"
| "Map_set ((k', a') # m) k a = (if k' = k then (k, a) # m else (k', a') # Map_set m k a)"

subsection \<open>addEventListener, its unsubscribe closure, removeEventListener\<close>

text \<open>
  The closure returned by \<^verbatim>\<open>addEventListener\<close> captures the set object and the callback:
  it is the pair of the set's address and the callback.
\<close>

type_synonym unsubscribe_closure = "nat \<times> callback"

definition addEventListener :: "Storage \<Rightarrow> string \<Rightarrow> callback \<Rightarrow> Storage \<times> unsubscribe_closure" where
  "addEventListener st eventType cb =
     (let (a, hp) = (case Map_get (subscribersMap st) eventType of
                       Some a \<Rightarrow> (a, heap st)
                     | None \<Rightarrow> (length (heap st), heap st @ [[]]));
          m = Map_set (subscribersMap st) eventType a
      in (st\<lparr>subscribersMap := m, heap := hp[a := Set_add (hp ! a) cb]\<rparr>, (a, cb)))"

definition unsubscribe :: "unsubscribe_closure \<Rightarrow> Storage \<Rightarrow> Storage" where
  "unsubscribe u st =
     (case u of (a, cb) \<Rightarrow> st\<lparr>heap := (heap st)[a := Set_delete (heap st ! a) cb]\<rparr>)"

definition removeEventListener :: "Storage \<Rightarrow> string \<Rightarrow> callback \<Rightarrow> Storage" where
  "removeEventListener st eventType cb =
     (case Map_get (subscribersMap st) eventType of
        None \<Rightarrow> st
      | Some a \<Rightarrow> st\<lparr>heap := (heap st)[a := Set_delete (heap st ! a) cb]\<rparr>)"

subsection \<open>What a callback does when it is invoked\<close>

text \<open>
  The bodies of the callbacks belong to the caller. A callback receives the event, and
  may call back into the same Storage object: the calls it makes to
  \<^verbatim>\<open>addEventListener\<close>, \<^verbatim>\<open>removeEventListener\<close> and to unsubscribe closures are given by
  \<open>h cb event\<close>, in order. The closures it invokes are values that \<^verbatim>\<open>addEventListener\<close>
  returned. Callbacks return normally and do not write to the store.
\<close>

datatype listener_call =
    AddListener string callback
  | RemoveListener string callback
  | CallUnsubscribe unsubscribe_closure

type_synonym handlers = "callback \<Rightarrow> StorageEvent \<Rightarrow> listener_call list"

fun do_call :: "Storage \<Rightarrow> listener_call \<Rightarrow> Storage" where
  "do_call st (AddListener p c) = fst (addEventListener st p c)"
| "do_call st (RemoveListener p c) = removeEventListener st p c"
| "do_call st (CallUnsubscribe u) = unsubscribe u st"

definition invoke :: "handlers \<Rightarrow> callback \<Rightarrow> StorageEvent \<Rightarrow> Storage \<Rightarrow> Storage" where
  "invoke h cb event st = foldl do_call (st\<lparr>calls := calls st @ [(cb, event)]\<rparr>) (h cb event)"

subsection \<open>_notify (lines 149-171)\<close>

definition endsWith :: "string \<Rightarrow> string \<Rightarrow> bool" where
  "endsWith s t = (length t \<le> length s \<and> drop (length s - length t) s = t)"

text \<open>
  \<^verbatim>\<open>subscribersSet.forEach(cb => cb(event))\<close> on the set at address \<open>a\<close>, from index \<open>i\<close>.
  The set is read from the heap at every step: it is the live set. A callback that adds
  itself again after deleting itself keeps this loop running forever; the first
  argument is the number of steps allowed, and \<open>None\<close> says that they did not suffice.
\<close>

fun Set_forEach :: "handlers \<Rightarrow> nat \<Rightarrow> nat \<Rightarrow> nat \<Rightarrow> StorageEvent \<Rightarrow> Storage \<Rightarrow> Storage option" where
  "Set_forEach h 0 a i event st = None"
| "Set_forEach h (Suc n) a i event st =
     (let entries = heap st ! a in
      if i < length entries then
        (case entries ! i of
           None \<Rightarrow> Set_forEach h n a (Suc i) event st
         | Some cb \<Rightarrow> Set_forEach h n a (Suc i) event (invoke h cb event st))
      else Some st)"

text \<open>
  \<^verbatim>\<open>this._subscribersMap.forEach((subscribersSet, key) => ...)\<close> of the clear branch, from
  entry \<open>i\<close> of the live map; \<open>fuel\<close> bounds each inner loop and \<open>n\<close> the outer one.
\<close>

fun Map_forEach :: "handlers \<Rightarrow> nat \<Rightarrow> nat \<Rightarrow> nat \<Rightarrow> StorageEvent \<Rightarrow> Storage \<Rightarrow> Storage option" where
  "Map_forEach h fuel 0 i event st = None"
| "Map_forEach h fuel (Suc n) i event st =
     (let m = subscribersMap st in
      if i < length m then
        (case m ! i of (key, a) \<Rightarrow>
           if endsWith key '':*'' \<or> endsWith key '':clear'' then
             (case Set_forEach h fuel a 0 event st of
                None \<Rightarrow> None
              | Some st' \<Rightarrow> Map_forEach h fuel n (Suc i) event st')
           else Map_forEach h fuel n (Suc i) event st)
      else Some st)"

text \<open>\<^verbatim>\<open>this._subscribersMap.get(pattern)?.forEach(cb => cb(event))\<close>\<close>

definition get_forEach :: "handlers \<Rightarrow> nat \<Rightarrow> string \<Rightarrow> StorageEvent \<Rightarrow> Storage \<Rightarrow> Storage option" where
  "get_forEach h fuel pattern event st =
     (case Map_get (subscribersMap st) pattern of
        None \<Rightarrow> Some st
      | Some a \<Rightarrow> Set_forEach h fuel a 0 event st)"

definition notify :: "handlers \<Rightarrow> nat \<Rightarrow> StorageEvent \<Rightarrow> Storage \<Rightarrow> Storage option" where
  "notify h fuel event st =
     (if ev_type event = clear_action then Map_forEach h fuel fuel 0 event st
      else
        (case get_forEach h fuel (key_text (ev_key event) @ '':'' @ action_name (ev_type event)) event st of
           None \<Rightarrow> None
         | Some st1 \<Rightarrow>
             (case get_forEach h fuel (''*:'' @ action_name (ev_type event)) event st1 of
                None \<Rightarrow> None
              | Some st2 \<Rightarrow>
                  get_forEach h fuel (key_text (ev_key event) @ '':*'') event st2)))"

subsection \<open>get, set, delete, clear (lines 102-145)\<close>

definition Storage_get :: "Storage \<Rightarrow> host \<Rightarrow> string \<Rightarrow> jsval" where
  "Storage_get st w k = LocalStorageProvider_get k (options st) w"

definition Storage_set ::
  "handlers \<Rightarrow> nat \<Rightarrow> Storage \<Rightarrow> host \<Rightarrow> string \<Rightarrow> jsval \<Rightarrow> (jsval \<times> Storage \<times> host) option" where
  "Storage_set h fuel st w k v =
     (case LocalStorageProvider_set k v (options st) w of
        (newValue, w') \<Rightarrow>
          (case notify h fuel \<lparr> ev_type = set_action, ev_key = Some k, ev_value = newValue \<rparr> st of
             None \<Rightarrow> None
           | Some st' \<Rightarrow> Some (newValue, st', w')))"

definition Storage_delete ::
  "handlers \<Rightarrow> nat \<Rightarrow> Storage \<Rightarrow> host \<Rightarrow> string \<Rightarrow> (jsval \<times> Storage \<times> host) option" where
  "Storage_delete h fuel st w k =
     (case LocalStorageProvider_delete k (options st) w of
        (oldValue, w') \<Rightarrow>
          (case notify h fuel \<lparr> ev_type = delete_action, ev_key = Some k, ev_value = oldValue \<rparr> st of
             None \<Rightarrow> None
           | Some st' \<Rightarrow> Some (oldValue, st', w')))"

definition Storage_clear :: "handlers \<Rightarrow> nat \<Rightarrow> Storage \<Rightarrow> host \<Rightarrow> (Storage \<times> host) option" where
  "Storage_clear h fuel st w =
     (let w' = LocalStorageProvider_clear (options st) w in
      case notify h fuel \<lparr> ev_type = clear_action, ev_key = None, ev_value = JUndefined \<rparr> st of
        None \<Rightarrow> None
      | Some st' \<Rightarrow> Some (st', w'))"

section \<open>Notions used in the statements\<close>

text \<open>The callbacks subscribed under a pattern, in insertion order.\<close>

definition subscribers :: "Storage \<Rightarrow> string \<Rightarrow> callback list" where
  "subscribers st pattern =
     (case Map_get (subscribersMap st) pattern of
        None \<Rightarrow> []
      | Some a \<Rightarrow> Set_values (heap st ! a))"

text \<open>The callbacks of the handler table make no call into the Storage object.\<close>

definition quiet :: "handlers \<Rightarrow> bool" where
  "quiet h = (\<forall>cb event. h cb event = [])"

text \<open>The number of steps covers every loop over the map and over each of its sets.\<close>

definition enough :: "nat \<Rightarrow> Storage \<Rightarrow> bool" where
  "enough fuel st =
     (length (subscribersMap st) < fuel \<and>
      list_all (\<lambda>(p, a). length (heap st ! a) < fuel) (subscribersMap st))"

text \<open>
  The shape of the state that the operations maintain (lemmas \<open>wf_do_call\<close> and
  \<open>wf_reachable\<close>): distinct patterns own distinct set objects, every address in the map
  is an address of the heap, and no callback occurs twice in a set.
\<close>

definition wf :: "Storage \<Rightarrow> bool" where
  "wf st =
     (distinct (map fst (subscribersMap st)) \<and>
      distinct (map snd (subscribersMap st)) \<and>
      list_all (\<lambda>(p, a). a < length (heap st)) (subscribersMap st) \<and>
      list_all (\<lambda>S. distinct (Set_values S)) (heap st))"

text \<open>A number of steps that is enough in state \<open>st\<close> (lemma \<open>enough_steps\<close>).\<close>

definition steps :: "Storage \<Rightarrow> nat" where
  "steps st =
     Suc (foldr max (map (\<lambda>(p, a). length (heap st ! a)) (subscribersMap st))
            (length (subscribersMap st)))"

text \<open>
  The callbacks reached by a set or delete event on key \<open>k\<close>: the subscribers of the
  three patterns of lines 161-169, in the order of the three lookups.
\<close>

definition candidates :: "Storage \<Rightarrow> string \<Rightarrow> StorageAction \<Rightarrow> callback list" where
  "candidates st k a =
     subscribers st (k @ '':'' @ action_name a) @
     subscribers st (''*:'' @ action_name a) @
     subscribers st (k @ '':*'')"

text \<open>The registered patterns that the clear branch accepts, in the order of the map.\<close>

definition clear_patterns :: "Storage \<Rightarrow> string list" where
  "clear_patterns st =
     filter (\<lambda>p. endsWith p '':*'' \<or> endsWith p '':clear'') (map fst (subscribersMap st))"

subsection \<open>Later states of a Storage object\<close>

text \<open>
  \<open>later st st'\<close>: the Storage object in state \<open>st\<close> reaches \<open>st'\<close> by calls of
  \<^verbatim>\<open>addEventListener\<close>, \<^verbatim>\<open>removeEventListener\<close> and unsubscribe closures, and by
  dispatches that return (the part of \<^verbatim>\<open>set\<close>, \<^verbatim>\<open>delete\<close> and \<^verbatim>\<open>clear\<close> that touches the
  object).
\<close>

inductive later :: "Storage \<Rightarrow> Storage \<Rightarrow> bool" where
  later_refl: "later st st"
| later_call: "later st st1 \<Longrightarrow> later st (do_call st1 x)"
| later_notify: "later st st1 \<Longrightarrow> notify h n event st1 = Some st2 \<Longrightarrow> later st st2"

subsection \<open>The snapshot design, for comparison\<close>

text \<open>
  Section 5 of the specification describes a dispatch that copies each matched subscriber
  set before it iterates. The repository has no such code; the following functions
  write that design down, to compare it with \<open>notify\<close>. The copy is the list of the
  callbacks of the set at the moment the iteration starts.
\<close>

definition Set_forEach_snapshot :: "handlers \<Rightarrow> nat \<Rightarrow> StorageEvent \<Rightarrow> Storage \<Rightarrow> Storage" where
  "Set_forEach_snapshot h a event st =
     foldl (\<lambda>s cb. invoke h cb event s) st (Set_values (heap st ! a))"

definition get_forEach_snapshot :: "handlers \<Rightarrow> string \<Rightarrow> StorageEvent \<Rightarrow> Storage \<Rightarrow> Storage" where
  "get_forEach_snapshot h pattern event st =
     (case Map_get (subscribersMap st) pattern of
        None \<Rightarrow> st
      | Some a \<Rightarrow> Set_forEach_snapshot h a event st)"

fun Map_forEach_snapshot :: "handlers \<Rightarrow> nat \<Rightarrow> nat \<Rightarrow> StorageEvent \<Rightarrow> Storage \<Rightarrow> Storage option" where
  "Map_forEach_snapshot h 0 i event st = None"
| "Map_forEach_snapshot h (Suc n) i event st =
     (let m = subscribersMap st in
      if i < length m then
        (case m ! i of (key, a) \<Rightarrow>
           if endsWith key '':*'' \<or> endsWith key '':clear'' then
             Map_forEach_snapshot h n (Suc i) event (Set_forEach_snapshot h a event st)
           else Map_forEach_snapshot h n (Suc i) event st)
      else Some st)"

definition notify_snapshot :: "handlers \<Rightarrow> nat \<Rightarrow> StorageEvent \<Rightarrow> Storage \<Rightarrow> Storage option" where
  "notify_snapshot h fuel event st =
     (if ev_type event = clear_action then Map_forEach_snapshot h fuel 0 event st
      else
        Some (get_forEach_snapshot h (key_text (ev_key event) @ '':*'') event
               (get_forEach_snapshot h (''*:'' @ action_name (ev_type event)) event
                 (get_forEach_snapshot h (key_text (ev_key event) @ '':'' @ action_name (ev_type event))
                    event st))))"

subsection \<open>Example hosts, values, events and states\<close>

text \<open>
  A browser with an empty store, a browser whose store holds the string \<^verbatim>\<open>true\<close> under
  the key \<^verbatim>\<open>k\<close>, and a host without \<^verbatim>\<open>window\<close>.
\<close>

definition host_on :: host where
  "host_on = \<lparr> window_defined = True, localStorage = Map.empty \<rparr>"

definition host_stored :: host where
  "host_stored = \<lparr> window_defined = True, localStorage = [''k'' \<mapsto> ''true''] \<rparr>"

definition host_off :: host where
  "host_off = \<lparr> window_defined = False, localStorage = [''k'' \<mapsto> ''true''] \<rparr>"

text \<open>The value of the repository's example, \<^verbatim>\<open>[{ id: 1, name: "x" }]\<close>.\<close>

definition products :: jsval where
  "products = JArr [JObj [(''id'', JNum 1), (''name'', JStr ''x'')]]"

definition clear_event :: StorageEvent where
  "clear_event = \<lparr> ev_type = clear_action, ev_key = None, ev_value = JUndefined \<rparr>"

definition set_k_event :: StorageEvent where
  "set_k_event = \<lparr> ev_type = set_action, ev_key = Some ''k'', ev_value = JBool True \<rparr>"

text \<open>
  \<open>st_demo\<close> is the Storage object after
  \<^verbatim>\<open>addEventListener('k:set', f10)\<close>, \<^verbatim>\<open>addEventListener('*:*', f11)\<close>,
  \<^verbatim>\<open>addEventListener('*:set', f12)\<close> and \<^verbatim>\<open>addEventListener('*:set', f10)\<close>
  (lemma \<open>st_demo_built\<close>); \<open>st_sub\<close> is \<open>st_demo\<close> after
  \<^verbatim>\<open>addEventListener('*:set', f13)\<close>, and \<open>st_sub2\<close> is \<open>st_sub\<close> after
  \<^verbatim>\<open>addEventListener('k:set', f13)\<close>.
\<close>

definition st_demo :: Storage where
  "st_demo =
     \<lparr> options = \<lparr> prefix = None, jsonSerializer = defaultJSONSerializer \<rparr>,
       subscribersMap = [(''k:set'', 0), (''*:*'', 1), (''*:set'', 2)],
       heap = [[Some 10], [Some 11], [Some 12, Some 10]],
       calls = [] \<rparr>"

definition st_sub :: Storage where
  "st_sub = fst (addEventListener st_demo ''*:set'' 13)"

definition st_sub2 :: Storage where
  "st_sub2 = do_call st_sub (AddListener ''k:set'' 13)"

text \<open>States with subscribers under patterns of every kind, for clear events and for the key \<open>*\<close>.\<close>

definition st_clear_demo :: Storage where
  "st_clear_demo =
     \<lparr> options = \<lparr> prefix = None, jsonSerializer = defaultJSONSerializer \<rparr>,
       subscribersMap = [(''k:set'', 0), (''*:*'', 1), (''k:clear'', 2), (''j:*'', 3), (''*:delete'', 4)],
       heap = [[Some 10], [Some 11], [Some 12, Some 11], [Some 13], [Some 14]],
       calls = [] \<rparr>"

definition st_star_demo :: Storage where
  "st_star_demo =
     \<lparr> options = \<lparr> prefix = None, jsonSerializer = defaultJSONSerializer \<rparr>,
       subscribersMap = [(''*:set'', 0), (''*:*'', 1), (''*:delete'', 2)],
       heap = [[Some 20], [Some 21], [Some 22]],
       calls = [] \<rparr>"

text \<open>
  Two subscribers \<open>1\<close> and \<open>2\<close> of \<open>k:set\<close>. With \<open>h_unsub\<close>, callback \<open>1\<close> calls
  \<^verbatim>\<open>removeEventListener('k:set', f2)\<close>; with \<open>h_sub\<close>, it calls
  \<^verbatim>\<open>addEventListener('k:set', f3)\<close>.
\<close>

definition st_live :: Storage where
  "st_live =
     \<lparr> options = \<lparr> prefix = None, jsonSerializer = defaultJSONSerializer \<rparr>,
       subscribersMap = [(''k:set'', 0)],
       heap = [[Some 1, Some 2]],
       calls = [] \<rparr>"

definition h_unsub :: handlers where
  "h_unsub = (\<lambda>cb event. if cb = 1 then [RemoveListener ''k:set'' 2] else [])"

definition h_sub :: handlers where
  "h_sub = (\<lambda>cb event. if cb = 1 then [AddListener ''k:set'' 3] else [])"

subsection \<open>Callbacks that call back into the Storage object during a dispatch\<close>

text \<open>
  \<open>adds x c\<close>: the call \<open>x\<close> is \<^verbatim>\<open>addEventListener(_, c)\<close>. \<open>removes x c\<close>: the call \<open>x\<close> is
  \<^verbatim>\<open>removeEventListener(_, c)\<close> or the call of an unsubscribe closure of \<open>c\<close>.
\<close>

fun adds :: "listener_call \<Rightarrow> callback \<Rightarrow> bool" where
  "adds (AddListener p c') c = (c' = c)"
| "adds (RemoveListener p c') c = False"
| "adds (CallUnsubscribe u) c = False"

fun removes :: "listener_call \<Rightarrow> callback \<Rightarrow> bool" where
  "removes (AddListener p c') c = False"
| "removes (RemoveListener p c') c = (c' = c)"
| "removes (CallUnsubscribe u) c = (snd u = c)"

text \<open>
  \<open>silent h event cs\<close>: the callbacks \<open>cs\<close> make no call into the Storage object when they
  receive \<open>event\<close>. \<open>never_subscribes h event c\<close>: no callback subscribes \<open>c\<close> when it receives
  \<open>event\<close>; \<open>never_unsubscribes h event c\<close>: no callback unsubscribes \<open>c\<close>.
\<close>

definition silent :: "handlers \<Rightarrow> StorageEvent \<Rightarrow> callback list \<Rightarrow> bool" where
  "silent h event cs = list_all (\<lambda>c. h c event = []) cs"

definition never_subscribes :: "handlers \<Rightarrow> StorageEvent \<Rightarrow> callback \<Rightarrow> bool" where
  "never_subscribes h event c = (\<forall>cb. \<not> list_ex (\<lambda>x. adds x c) (h cb event))"

definition never_unsubscribes :: "handlers \<Rightarrow> StorageEvent \<Rightarrow> callback \<Rightarrow> bool" where
  "never_unsubscribes h event c = (\<forall>cb. \<not> list_ex (\<lambda>x. removes x c) (h cb event))"

text \<open>
  The patterns whose sets \<^verbatim>\<open>_notify\<close> iterates for \<open>event\<close> from the state \<open>st\<close>, in the order
  of the code: the three lookups of lines 161-169, or for a clear event the accepted
  patterns that are registered when the dispatch starts. \<open>matched st event\<close> are the
  callbacks subscribed under these patterns when the dispatch starts, and
  \<open>invoked st st'\<close> are the callbacks that a dispatch from \<open>st\<close> to \<open>st'\<close> has invoked, in
  order.
\<close>

definition lookups :: "Storage \<Rightarrow> StorageEvent \<Rightarrow> string list" where
  "lookups st event =
     (if ev_type event = clear_action then clear_patterns st
      else [key_text (ev_key event) @ '':'' @ action_name (ev_type event),
            ''*:'' @ action_name (ev_type event),
            key_text (ev_key event) @ '':*''])"

definition matched :: "Storage \<Rightarrow> StorageEvent \<Rightarrow> callback list" where
  "matched st event = concat (map (subscribers st) (lookups st event))"

definition invoked :: "Storage \<Rightarrow> Storage \<Rightarrow> callback list" where
  "invoked st st' = map fst (drop (length (calls st)) (calls st'))"

text \<open>The callbacks of the sets of the entries \<open>m\<close> of the map that the clear branch accepts.\<close>

definition matching_sets :: "Storage \<Rightarrow> (string \<times> nat) list \<Rightarrow> callback list" where
  "matching_sets s m =
     concat (map (\<lambda>x. if endsWith (fst x) '':*'' \<or> endsWith (fst x) '':clear''
                       then Set_values (heap s ! snd x) else []) m)"

text \<open>
  Measures for the proof that a dispatch returns. \<open>same_shape st s\<close>: \<open>s\<close> has the map of
  \<open>st\<close> and sets of the same sizes. \<open>subscribed s x\<close>: the call \<open>x\<close>, if it is a call of
  \<^verbatim>\<open>addEventListener\<close>, finds its callback in the set already; \<open>pending xs s\<close> counts the
  calls of \<open>xs\<close> that do not, and \<open>bounded xs fuel s\<close> says that the map and its sets stay
  smaller than \<open>fuel\<close> when all of them are made.
\<close>

definition same_shape :: "Storage \<Rightarrow> Storage \<Rightarrow> bool" where
  "same_shape st s = (subscribersMap s = subscribersMap st \<and>
     (\<forall>a. length (heap s ! a) = length (heap st ! a)))"

fun subscribed :: "Storage \<Rightarrow> listener_call \<Rightarrow> bool" where
  "subscribed s (AddListener p c) = (c \<in> set (subscribers s p))"
| "subscribed s (RemoveListener p c) = True"
| "subscribed s (CallUnsubscribe u) = True"

definition pending :: "listener_call list \<Rightarrow> Storage \<Rightarrow> nat" where
  "pending xs s = card {x \<in> set xs. \<not> subscribed s x}"

definition bounded :: "listener_call list \<Rightarrow> nat \<Rightarrow> Storage \<Rightarrow> bool" where
  "bounded xs fuel s =
     (length (subscribersMap s) + pending xs s < fuel \<and>
      (\<forall>(p, a) \<in> set (subscribersMap s). length (heap s ! a) + pending xs s < fuel))"

text \<open>
  \<open>st_reent\<close>: callback \<open>5\<close> under \<open>*:*\<close>, callback \<open>1\<close> under \<open>k:set\<close>, and the callbacks \<open>2\<close>,
  \<open>3\<close>, \<open>4\<close> under \<open>k:*\<close>. With \<open>h_reent\<close>, callback \<open>3\<close> unsubscribes callback \<open>4\<close> from
  \<open>k:*\<close> (with \<^verbatim>\<open>removeEventListener('k:*', f4)\<close> on a set or delete event, with the closure
  that \<^verbatim>\<open>addEventListener('k:*', f4)\<close> returned on a clear event) and then calls
  \<^verbatim>\<open>addEventListener('k:*', f6)\<close>; the other callbacks make no call.
\<close>

definition st_reent :: Storage where
  "st_reent =
     \<lparr> options = \<lparr> prefix = None, jsonSerializer = defaultJSONSerializer \<rparr>,
       subscribersMap = [(''*:*'', 0), (''k:set'', 1), (''k:*'', 2)],
       heap = [[Some 5], [Some 1], [Some 2, Some 3, Some 4]],
       calls = [] \<rparr>"

definition h_reent :: handlers where
  "h_reent = (\<lambda>cb event.
     if cb = 3 then
       [if ev_type event = clear_action then CallUnsubscribe (2, 4) else RemoveListener ''k:*'' 4,
        AddListener ''k:*'' 6]
     else [])"

section \<open>Dispatch when no callback calls back into the Storage object\<close>

lemma invoke_calm: "h cb event = [] \<Longrightarrow> invoke h cb event st = st\<lparr>calls := calls st @ [(cb, event)]\<rparr>"
  by (simp add: invoke_def)

lemma Set_values_append: "Set_values (xs @ ys) = Set_values xs @ Set_values ys"
  by (induction xs rule: Set_values.induct) auto

lemma Set_values_mem: "c \<in> set (Set_values S) \<longleftrightarrow> Some c \<in> set S"
  by (induction S rule: Set_values.induct) auto

lemma Set_values_delete: "Set_values (Set_delete S c) = removeAll c (Set_values S)"
  by (induction S rule: Set_values.induct) (auto simp: Set_delete_def)

lemma Set_forEach_calm:
  "\<forall>c \<in> set (Set_values (drop i (heap st ! a))). h c event = [] \<Longrightarrow>
   length (heap st ! a) - i < n \<Longrightarrow>
   Set_forEach h n a i event st =
     Some (st\<lparr>calls := calls st @ map (\<lambda>c. (c, event)) (Set_values (drop i (heap st ! a)))\<rparr>)"
proof (induction n arbitrary: i st)
  case 0
  then show ?case by simp
next
  case (Suc n)
  show ?case
  proof (cases "i < length (heap st ! a)")
    case False
    then show ?thesis by simp
  next
    case True
    then have d: "drop i (heap st ! a) = (heap st ! a) ! i # drop (Suc i) (heap st ! a)"
      by (simp add: Cons_nth_drop_Suc)
    show ?thesis
    proof (cases "(heap st ! a) ! i")
      case None
      have "Set_forEach h n a (Suc i) event st =
        Some (st\<lparr>calls := calls st @ map (\<lambda>c. (c, event)) (Set_values (drop (Suc i) (heap st ! a)))\<rparr>)"
        using Suc.prems True d None by (intro Suc.IH) auto
      then show ?thesis using True None d by simp
    next
      case (Some cb)
      have hc: "h cb event = []" using Suc.prems(1) d Some by simp
      let ?st = "st\<lparr>calls := calls st @ [(cb, event)]\<rparr>"
      have "Set_forEach h n a (Suc i) event ?st =
        Some (?st\<lparr>calls := calls ?st @ map (\<lambda>c. (c, event)) (Set_values (drop (Suc i) (heap ?st ! a)))\<rparr>)"
        using Suc.prems True d Some by (intro Suc.IH) auto
      then show ?thesis using True Some d hc by (simp add: invoke_calm)
    qed
  qed
qed

lemma quiet_calm: "quiet h \<Longrightarrow> h c event = []"
  by (simp add: quiet_def)

lemma enough_lookup:
  "enough fuel st \<Longrightarrow> Map_get (subscribersMap st) p = Some a \<Longrightarrow> length (heap st ! a) < fuel"
  unfolding enough_def Map_get_def list_all_iff
  by (auto dest: map_of_SomeD)

lemma enough_calls [simp]: "enough fuel (st\<lparr>calls := cs\<rparr>) = enough fuel st"
  by (simp add: enough_def)

lemma foldr_max_ge: "b \<le> foldr max xs (b :: nat)"
  by (induction xs) auto

lemma foldr_max_mem: "x \<in> set xs \<Longrightarrow> x \<le> foldr max xs (b :: nat)"
  by (induction xs) auto

lemma enough_steps: "enough (steps st) st"
  unfolding enough_def steps_def list_all_iff
proof (intro conjI ballI)
  show "length (subscribersMap st)
      < Suc (foldr max (map (\<lambda>(p, a). length (heap st ! a)) (subscribersMap st))
               (length (subscribersMap st)))"
    using foldr_max_ge[of "length (subscribersMap st)"] by (simp add: less_Suc_eq_le)
next
  fix x assume x: "x \<in> set (subscribersMap st)"
  obtain p a where pa: "x = (p, a)" by (cases x)
  have "length (heap st ! a) \<in> set (map (\<lambda>(p, a). length (heap st ! a)) (subscribersMap st))"
    using x pa by force
  then have "length (heap st ! a)
      \<le> foldr max (map (\<lambda>(p, a). length (heap st ! a)) (subscribersMap st))
               (length (subscribersMap st))"
    by (rule foldr_max_mem)
  then show "case x of (p, a) \<Rightarrow> length (heap st ! a)
      < Suc (foldr max (map (\<lambda>(p, a). length (heap st ! a)) (subscribersMap st))
               (length (subscribersMap st)))"
    using pa by (simp add: less_Suc_eq_le)
qed

lemma enough_mono: "enough n st \<Longrightarrow> n \<le> m \<Longrightarrow> enough m st"
  unfolding enough_def list_all_iff by fastforce

lemma subscribers_calls [simp]: "subscribers (st\<lparr>calls := cs\<rparr>) p = subscribers st p"
  by (simp add: subscribers_def split: option.splits)

lemma get_forEach_quiet:
  assumes "quiet h" and "enough fuel st"
  shows "get_forEach h fuel p event st =
     Some (st\<lparr>calls := calls st @ map (\<lambda>c. (c, event)) (subscribers st p)\<rparr>)"
proof (cases "Map_get (subscribersMap st) p")
  case None
  then show ?thesis by (simp add: get_forEach_def subscribers_def)
next
  case (Some a)
  have "Set_forEach h fuel a 0 event st =
     Some (st\<lparr>calls := calls st @ map (\<lambda>c. (c, event)) (Set_values (drop 0 (heap st ! a)))\<rparr>)"
    using assms enough_lookup[OF assms(2) Some] by (intro Set_forEach_calm) (auto simp: quiet_calm)
  then show ?thesis using Some by (simp add: get_forEach_def subscribers_def)
qed

lemma candidates_calls [simp]: "candidates (st\<lparr>calls := cs\<rparr>) k a = candidates st k a"
  by (simp add: candidates_def)

lemma notify_quiet:
  assumes "quiet h" and "enough fuel st" and "ev_type event \<noteq> clear_action"
  shows "notify h fuel event st =
     Some (st\<lparr>calls := calls st @ map (\<lambda>c. (c, event))
        (candidates st (key_text (ev_key event)) (ev_type event))\<rparr>)"
  using assms by (simp add: notify_def get_forEach_quiet candidates_def)

lemma Map_forEach_quiet:
  assumes "quiet h" and "enough fuel st"
  shows "length (subscribersMap st) - i < n \<Longrightarrow>
     Map_forEach h fuel n i event st =
       Some (st\<lparr>calls := calls st @ map (\<lambda>c. (c, event))
          (concat (map (\<lambda>(p, a). if endsWith p '':*'' \<or> endsWith p '':clear''
                                  then Set_values (heap st ! a) else [])
                   (drop i (subscribersMap st))))\<rparr>)"
  using assms(2)
proof (induction n arbitrary: i st)
  case 0
  then show ?case by simp
next
  case (Suc n)
  let ?m = "subscribersMap st"
  show ?case
  proof (cases "i < length ?m")
    case False
    then show ?thesis by simp
  next
    case True
    then have d: "drop i ?m = ?m ! i # drop (Suc i) ?m"
      by (simp add: Cons_nth_drop_Suc)
    obtain p a where pa: "?m ! i = (p, a)" by (cases "?m ! i")
    have mem: "(p, a) \<in> set ?m" using True pa by (metis nth_mem)
    have len: "length (heap st ! a) < fuel"
      using Suc.prems(2) mem unfolding enough_def list_all_iff by auto
    show ?thesis
    proof (cases "endsWith p '':*'' \<or> endsWith p '':clear''")
      case False
      have "Map_forEach h fuel n (Suc i) event st =
       Some (st\<lparr>calls := calls st @ map (\<lambda>c. (c, event))
          (concat (map (\<lambda>(p, a). if endsWith p '':*'' \<or> endsWith p '':clear''
                                  then Set_values (heap st ! a) else [])
                   (drop (Suc i) (subscribersMap st))))\<rparr>)"
        using Suc.prems True by (intro Suc.IH) auto
      then show ?thesis using True pa d False by simp
    next
      case m: True
      let ?st = "st\<lparr>calls := calls st @ map (\<lambda>c. (c, event)) (Set_values (heap st ! a))\<rparr>"
      have inner: "Set_forEach h fuel a 0 event st = Some ?st"
        using Set_forEach_calm[of 0 st a h event fuel] len assms(1) by (simp add: quiet_calm)
      have "Map_forEach h fuel n (Suc i) event ?st =
       Some (?st\<lparr>calls := calls ?st @ map (\<lambda>c. (c, event))
          (concat (map (\<lambda>x. if endsWith (fst x) '':*'' \<or> endsWith (fst x) '':clear''
                                  then Set_values (heap st ! snd x) else [])
                   (drop (Suc i) (subscribersMap st))))\<rparr>)"
        using Suc.IH[of ?st "Suc i"] Suc.prems True by (simp add: case_prod_beta cong: if_cong)
      then show ?thesis using True pa d m inner by (simp add: case_prod_beta)
    qed
  qed
qed

lemma subscribers_distinct_key:
  "distinct (map fst m) \<Longrightarrow> (p, a) \<in> set m \<Longrightarrow> map_of m p = Some a"
  by simp

lemma clear_concat:
  assumes "distinct (map fst (subscribersMap st))"
  shows "concat (map (\<lambda>(p, a). if endsWith p '':*'' \<or> endsWith p '':clear''
                                  then Set_values (heap st ! a) else []) (subscribersMap st))
       = concat (map (subscribers st) (clear_patterns st))"
proof -
  have "\<And>m. set m \<subseteq> set (subscribersMap st) \<Longrightarrow>
     concat (map (\<lambda>(p, a). if endsWith p '':*'' \<or> endsWith p '':clear''
                                  then Set_values (heap st ! a) else []) m)
       = concat (map (subscribers st) (filter (\<lambda>p. endsWith p '':*'' \<or> endsWith p '':clear'') (map fst m)))"
  proof -
    fix m show "set m \<subseteq> set (subscribersMap st) \<Longrightarrow>
     concat (map (\<lambda>(p, a). if endsWith p '':*'' \<or> endsWith p '':clear''
                                  then Set_values (heap st ! a) else []) m)
       = concat (map (subscribers st) (filter (\<lambda>p. endsWith p '':*'' \<or> endsWith p '':clear'') (map fst m)))"
    proof (induction m)
      case Nil
      then show ?case by simp
    next
      case (Cons x m)
      obtain p a where x: "x = (p, a)" by (cases x)
      have "map_of (subscribersMap st) p = Some a"
        using Cons.prems x assms by simp
      then have "subscribers st p = Set_values (heap st ! a)"
        by (simp add: subscribers_def Map_get_def)
      then show ?case using Cons x by simp
    qed
  qed
  then show ?thesis by (simp add: clear_patterns_def)
qed

lemma notify_clear_quiet:
  assumes "quiet h" and "enough fuel st" and "ev_type event = clear_action"
    and "distinct (map fst (subscribersMap st))"
  shows "notify h fuel event st =
     Some (st\<lparr>calls := calls st @ map (\<lambda>c. (c, event))
        (concat (map (subscribers st) (clear_patterns st)))\<rparr>)"
proof -
  have "length (subscribersMap st) - 0 < fuel" using assms(2) by (simp add: enough_def)
  from Map_forEach_quiet[OF assms(1,2) this, of event]
  show ?thesis using assms(3) clear_concat[OF assms(4)] by (simp add: notify_def)
qed

lemma action_pattern_not_star:
  "a = set_action \<or> a = delete_action \<Longrightarrow> k @ '':'' @ action_name a \<noteq> ''*:*''"
  by (auto dest: arg_cong[where f = length])

lemma wild_action_not_star:
  "a = set_action \<or> a = delete_action \<Longrightarrow> ''*:'' @ action_name a \<noteq> ''*:*''"
  by auto

lemma key_wild_not_star: "k \<noteq> ''*'' \<Longrightarrow> k @ '':*'' \<noteq> ''*:*''"
proof
  assume "k \<noteq> ''*''" and "k @ '':*'' = ''*:*''"
  then have "k @ '':*'' = ''*'' @ '':*''" by simp
  then have "k = ''*''" by (simp only: append_same_eq)
  with \<open>k \<noteq> ''*''\<close> show False by simp
qed

text \<open>
  Claim C1. A set or delete event on key \<open>k\<close> reaches the subscribers of exactly three
  patterns, \<open>k:action\<close>, \<open>*:action\<close> and \<open>k:*\<close>: the invocations are those of the first
  set, then of the second, then of the third, each in the order of the set, and the
  state is otherwise unchanged. A callback that is subscribed under no pattern other than
  \<open>*:*\<close> is not among them when \<open>k\<close> is not the string \<open>*\<close>. (Callbacks that call back
  into the Storage object while the dispatch runs are the subject of claim C3.)
\<close>

theorem set_delete_dispatch:
  assumes "quiet h" and "enough fuel st" and "a = set_action \<or> a = delete_action"
  shows "notify h fuel \<lparr> ev_type = a, ev_key = Some k, ev_value = v \<rparr> st =
           Some (st\<lparr>calls := calls st @
              map (\<lambda>c. (c, \<lparr> ev_type = a, ev_key = Some k, ev_value = v \<rparr>))
                (subscribers st (k @ '':'' @ action_name a) @
                 subscribers st (''*:'' @ action_name a) @
                 subscribers st (k @ '':*''))\<rparr>)
         \<and> (k \<noteq> ''*'' \<longrightarrow>
              (\<forall>c. (\<forall>p. p \<noteq> ''*:*'' \<longrightarrow> c \<notin> set (subscribers st p)) \<longrightarrow>
                 c \<notin> set (subscribers st (k @ '':'' @ action_name a) @
                          subscribers st (''*:'' @ action_name a) @
                          subscribers st (k @ '':*''))))"
proof
  have "ev_type \<lparr> ev_type = a, ev_key = Some k, ev_value = v \<rparr> \<noteq> clear_action"
    using assms(3) by auto
  from notify_quiet[OF assms(1,2) this]
  show "notify h fuel \<lparr> ev_type = a, ev_key = Some k, ev_value = v \<rparr> st =
           Some (st\<lparr>calls := calls st @
              map (\<lambda>c. (c, \<lparr> ev_type = a, ev_key = Some k, ev_value = v \<rparr>))
                (subscribers st (k @ '':'' @ action_name a) @
                 subscribers st (''*:'' @ action_name a) @
                 subscribers st (k @ '':*''))\<rparr>)"
    by (simp add: candidates_def key_text_def)
next
  show "k \<noteq> ''*'' \<longrightarrow>
              (\<forall>c. (\<forall>p. p \<noteq> ''*:*'' \<longrightarrow> c \<notin> set (subscribers st p)) \<longrightarrow>
                 c \<notin> set (subscribers st (k @ '':'' @ action_name a) @
                          subscribers st (''*:'' @ action_name a) @
                          subscribers st (k @ '':*'')))"
    using action_pattern_not_star[OF assms(3), of k] wild_action_not_star[OF assms(3)]
      key_wild_not_star[of k]
    by (simp del: append.simps)
qed

lemma st_demo_built:
  "st_demo =
     fst (addEventListener (fst (addEventListener (fst (addEventListener (fst (addEventListener
       (Storage_new None) ''k:set'' 10)) ''*:*'' 11)) ''*:set'' 12)) ''*:set'' 10)"
  by (simp add: st_demo_def Storage_new_def addEventListener_def Map_get_def Set_add_def)

theorem set_delete_dispatch_witness:
  "notify (\<lambda>c e. []) 4 \<lparr> ev_type = set_action, ev_key = Some ''k'', ev_value = JBool True \<rparr> st_demo =
     Some (st_demo\<lparr>calls :=
       [(10, \<lparr> ev_type = set_action, ev_key = Some ''k'', ev_value = JBool True \<rparr>),
        (12, \<lparr> ev_type = set_action, ev_key = Some ''k'', ev_value = JBool True \<rparr>),
        (10, \<lparr> ev_type = set_action, ev_key = Some ''k'', ev_value = JBool True \<rparr>)]\<rparr>)
   \<and> 11 \<notin> set (subscribers st_demo ''k:set'' @ subscribers st_demo ''*:set'' @ subscribers st_demo ''k:*'')"
proof -
  have q: "quiet (\<lambda>c e. [])" by (simp add: quiet_def)
  have e: "enough 4 st_demo" by (simp add: enough_def st_demo_def)
  have a: "set_action = set_action \<or> set_action = delete_action" by simp
  show ?thesis
    using set_delete_dispatch[OF q e a, of "''k''" "JBool True"]
    by (simp add: subscribers_def st_demo_def Map_get_def)
qed

lemma endsWith_last:
  assumes "endsWith p s" and "s \<noteq> []"
  shows "last p = last s"
proof -
  from assms(1) have d: "drop (length p - length s) p = s" and l: "length s \<le> length p"
    by (simp_all add: endsWith_def)
  from l assms(2) have "length p - length s < length p"
    by (cases s) auto
  then have "last (drop (length p - length s) p) = last p"
    by (rule last_drop)
  with d show ?thesis by simp
qed

lemma clear_pattern_not_set_delete:
  assumes "endsWith p '':*'' \<or> endsWith p '':clear''"
  shows "\<not> endsWith p '':set'' \<and> \<not> endsWith p '':delete''"
proof -
  from assms have "last p = CHR ''*'' \<or> last p = CHR ''r''"
    by (auto dest: endsWith_last)
  then show ?thesis
    by (auto dest: endsWith_last)
qed

text \<open>
  Claim C2. A clear event walks all registered patterns in the order of the map and
  invokes the subscribers of exactly those that end with \<open>:*\<close> or \<open>:clear\<close>, whatever
  their key token; a callback that is subscribed only under patterns ending with
  \<open>:set\<close> or \<open>:delete\<close> is not invoked.
\<close>

theorem clear_dispatch:
  assumes "quiet h" and "enough fuel st" and "wf st" and "ev_type event = clear_action"
  shows "notify h fuel event st =
           Some (st\<lparr>calls := calls st @ map (\<lambda>c. (c, event))
              (concat (map (subscribers st)
                 (filter (\<lambda>p. endsWith p '':*'' \<or> endsWith p '':clear'')
                    (map fst (subscribersMap st)))))\<rparr>)
         \<and> (\<forall>c. (\<forall>p. c \<in> set (subscribers st p) \<longrightarrow> endsWith p '':set'' \<or> endsWith p '':delete'') \<longrightarrow>
                c \<notin> set (concat (map (subscribers st)
                 (filter (\<lambda>p. endsWith p '':*'' \<or> endsWith p '':clear'')
                    (map fst (subscribersMap st))))))"
proof
  have "distinct (map fst (subscribersMap st))" using assms(3) by (simp add: wf_def)
  from notify_clear_quiet[OF assms(1,2,4) this]
  show "notify h fuel event st =
           Some (st\<lparr>calls := calls st @ map (\<lambda>c. (c, event))
              (concat (map (subscribers st)
                 (filter (\<lambda>p. endsWith p '':*'' \<or> endsWith p '':clear'')
                    (map fst (subscribersMap st)))))\<rparr>)"
    by (simp add: clear_patterns_def)
next
  show "\<forall>c. (\<forall>p. c \<in> set (subscribers st p) \<longrightarrow> endsWith p '':set'' \<or> endsWith p '':delete'') \<longrightarrow>
                c \<notin> set (concat (map (subscribers st)
                 (filter (\<lambda>p. endsWith p '':*'' \<or> endsWith p '':clear'')
                    (map fst (subscribersMap st)))))"
  proof (intro allI impI notI)
    fix c
    assume only: "\<forall>p. c \<in> set (subscribers st p) \<longrightarrow> endsWith p '':set'' \<or> endsWith p '':delete''"
    assume "c \<in> set (concat (map (subscribers st)
                 (filter (\<lambda>p. endsWith p '':*'' \<or> endsWith p '':clear'')
                    (map fst (subscribersMap st)))))"
    then obtain p where m: "endsWith p '':*'' \<or> endsWith p '':clear''" and c: "c \<in> set (subscribers st p)"
      by auto
    from only c have "endsWith p '':set'' \<or> endsWith p '':delete''" by blast
    with clear_pattern_not_set_delete[OF m] show False by blast
  qed
qed

lemma wf_st_clear_demo: "wf st_clear_demo"
  by (simp add: wf_def st_clear_demo_def)

theorem clear_dispatch_witness:
  "notify (\<lambda>c e. []) 6 clear_event st_clear_demo =
     Some (st_clear_demo\<lparr>calls :=
       [(11, clear_event), (12, clear_event), (11, clear_event), (13, clear_event)]\<rparr>)"
proof -
  have q: "quiet (\<lambda>c e. [])" by (simp add: quiet_def)
  have e: "enough 6 st_clear_demo" by (simp add: enough_def st_clear_demo_def)
  have c: "ev_type clear_event = clear_action" by (simp add: clear_event_def)
  show ?thesis
    using clear_dispatch[OF q e wf_st_clear_demo c]
    by (simp add: subscribers_def st_clear_demo_def Map_get_def endsWith_def)
qed

lemma subscribers_distinct: "wf st \<Longrightarrow> distinct (subscribers st p)"
proof (cases "Map_get (subscribersMap st) p")
  case None
  then show ?thesis by (simp add: subscribers_def)
next
  case (Some a)
  assume w: "wf st"
  from Some have "(p, a) \<in> set (subscribersMap st)"
    by (auto simp: Map_get_def dest: map_of_SomeD)
  with w have "a < length (heap st)"
    by (auto simp: wf_def list_all_iff)
  then have "heap st ! a \<in> set (heap st)" by simp
  with w have "distinct (Set_values (heap st ! a))"
    by (auto simp: wf_def list_all_iff)
  with Some show ?thesis by (simp add: subscribers_def)
qed

lemma count_list_distinct: "distinct xs \<Longrightarrow> count_list xs x = (if x \<in> set xs then 1 else 0)"
  by (induction xs) auto

lemma filter_eq_replicate: "filter (\<lambda>x. x = c) xs = replicate (count_list xs c) c"
  by (induction xs) auto

lemma count_subscribers:
  "wf st \<Longrightarrow> count_list (subscribers st p) c = (if c \<in> set (subscribers st p) then 1 else 0)"
  by (rule count_list_distinct) (rule subscribers_distinct)

lemma count_candidates:
  assumes "wf st"
  shows "count_list (candidates st k a) c =
     (if c \<in> set (subscribers st (k @ '':'' @ action_name a)) then 1 else 0) +
     (if c \<in> set (subscribers st (''*:'' @ action_name a)) then 1 else 0) +
     (if c \<in> set (subscribers st (k @ '':*'')) then 1 else 0)"
  unfolding candidates_def by (simp only: count_list_append count_subscribers[OF assms])

lemma Storage_set_quiet:
  assumes "quiet h" and "enough fuel st"
  shows "Storage_set h fuel st w k v =
     Some (fst (LocalStorageProvider_set k v (options st) w),
           st\<lparr>calls := calls st @
              map (\<lambda>c. (c, \<lparr> ev_type = set_action, ev_key = Some k,
                             ev_value = fst (LocalStorageProvider_set k v (options st) w) \<rparr>))
                (candidates st k set_action)\<rparr>,
           snd (LocalStorageProvider_set k v (options st) w))"
  using notify_quiet[OF assms, of "\<lparr> ev_type = set_action, ev_key = Some k,
                             ev_value = fst (LocalStorageProvider_set k v (options st) w) \<rparr>"]
  by (simp add: Storage_set_def key_text_def case_prod_beta)

lemma Storage_delete_quiet:
  assumes "quiet h" and "enough fuel st"
  shows "Storage_delete h fuel st w k =
     Some (fst (LocalStorageProvider_delete k (options st) w),
           st\<lparr>calls := calls st @
              map (\<lambda>c. (c, \<lparr> ev_type = delete_action, ev_key = Some k,
                             ev_value = fst (LocalStorageProvider_delete k (options st) w) \<rparr>))
                (candidates st k delete_action)\<rparr>,
           snd (LocalStorageProvider_delete k (options st) w))"
  using notify_quiet[OF assms, of "\<lparr> ev_type = delete_action, ev_key = Some k,
                             ev_value = fst (LocalStorageProvider_delete k (options st) w) \<rparr>"]
  by (simp add: Storage_delete_def key_text_def case_prod_beta)

lemma Storage_clear_quiet:
  assumes "quiet h" and "enough fuel st" and "wf st"
  shows "Storage_clear h fuel st w =
     Some (st\<lparr>calls := calls st @
              map (\<lambda>c. (c, \<lparr> ev_type = clear_action, ev_key = None, ev_value = JUndefined \<rparr>))
                (concat (map (subscribers st) (clear_patterns st)))\<rparr>,
           LocalStorageProvider_clear (options st) w)"
proof -
  have d: "distinct (map fst (subscribersMap st))" using assms(3) by (simp add: wf_def)
  show ?thesis
    using notify_clear_quiet[OF assms(1,2) _ d,
        of "\<lparr> ev_type = clear_action, ev_key = None, ev_value = JUndefined \<rparr>"]
    by (simp add: Storage_clear_def)
qed

text \<open>
  Claim C5. A callback subscribed under \<open>k:set\<close> and under \<open>*:set\<close> is invoked by one call
  \<open>set(k, v)\<close> once per matching pattern, each time with the set event of that call and
  without deduplication across the matched sets: exactly twice, and a third time only when
  it is subscribed under the third pattern \<open>k:*\<close> as well.
\<close>

theorem double_subscription:
  assumes "quiet h" and "enough fuel st" and "wf st"
    and "c \<in> set (subscribers st (k @ '':set''))"
    and "c \<in> set (subscribers st ''*:set'')"
  shows "\<exists>nv st' w' new.
           Storage_set h fuel st w k v = Some (nv, st', w') \<and>
           calls st' = calls st @ new \<and>
           filter (\<lambda>x. fst x = c) new =
             replicate (if c \<in> set (subscribers st (k @ '':*'')) then 3 else 2)
               (c, \<lparr> ev_type = set_action, ev_key = Some k, ev_value = nv \<rparr>)"
proof -
  let ?nv = "fst (LocalStorageProvider_set k v (options st) w)"
  let ?ev = "\<lparr> ev_type = set_action, ev_key = Some k, ev_value = ?nv \<rparr>"
  let ?new = "map (\<lambda>c. (c, ?ev)) (candidates st k set_action)"
  let ?n = "if c \<in> set (subscribers st (k @ '':*'')) then 3 else 2 :: nat"
  have "count_list (candidates st k set_action) c = ?n"
    using assms(4,5) by (simp add: count_candidates[OF assms(3)])
  then have "filter (\<lambda>x. x = c) (candidates st k set_action) = replicate ?n c"
    by (simp only: filter_eq_replicate)
  then have "filter (\<lambda>x. fst x = c) ?new = replicate ?n (c, ?ev)"
    by (simp add: filter_map comp_def)
  with Storage_set_quiet[OF assms(1,2), of w k v] show ?thesis
    by auto
qed

lemma wf_st_demo: "wf st_demo"
  by (simp add: wf_def st_demo_def)

lemma quiet_none: "quiet (\<lambda>c e. [])"
  by (simp add: quiet_def)

theorem double_subscription_witness:
  "\<exists>nv st' w' new.
     Storage_set (\<lambda>c e. []) 4 st_demo host_on ''k'' (JBool True) = Some (nv, st', w') \<and>
     calls st' = calls st_demo @ new \<and>
     filter (\<lambda>x. fst x = 10) new =
       [(10, \<lparr> ev_type = set_action, ev_key = Some ''k'', ev_value = nv \<rparr>),
        (10, \<lparr> ev_type = set_action, ev_key = Some ''k'', ev_value = nv \<rparr>)]"
proof -
  have e: "enough 4 st_demo" by (simp add: enough_def st_demo_def)
  have 1: "10 \<in> set (subscribers st_demo (''k'' @ '':set''))"
    by (simp add: subscribers_def st_demo_def Map_get_def)
  have 2: "10 \<in> set (subscribers st_demo ''*:set'')"
    by (simp add: subscribers_def st_demo_def Map_get_def)
  have 3: "10 \<notin> set (subscribers st_demo (''k'' @ '':*''))"
    by (simp add: subscribers_def st_demo_def Map_get_def)
  have r: "replicate (if 10 \<in> set (subscribers st_demo (''k'' @ '':*'')) then 3 else 2) x = [x, x]" for x :: "callback \<times> StorageEvent"
    using 3 by (simp add: numeral_2_eq_2)
  show ?thesis
    using double_subscription[OF quiet_none e wf_st_demo 1 2, of host_on "JBool True"]
    by (simp only: r)
qed

text \<open>
  Claim C9. When the key passed to \<open>set\<close> or \<open>delete\<close> is the string \<open>*\<close>, the first two
  lookups of the dispatch read the same pattern \<open>*:action\<close> and the third reads \<open>*:*\<close>.
  So the call invokes a callback twice for its subscription under \<open>*:action\<close> and once
  for its subscription under \<open>*:*\<close>: subscribers of \<open>*:*\<close> do receive the set and delete
  events of that key.
\<close>

theorem star_key_dispatch:
  assumes "quiet h" and "enough fuel st" and "wf st"
  shows "Storage_set h fuel st w ''*'' v =
           Some (fst (LocalStorageProvider_set ''*'' v (options st) w),
                 st\<lparr>calls := calls st @
                   map (\<lambda>c. (c, \<lparr> ev_type = set_action, ev_key = Some ''*'',
                                  ev_value = fst (LocalStorageProvider_set ''*'' v (options st) w) \<rparr>))
                     (subscribers st ''*:set'' @ subscribers st ''*:set'' @ subscribers st ''*:*'')\<rparr>,
                 snd (LocalStorageProvider_set ''*'' v (options st) w))
       \<and> Storage_delete h fuel st w ''*'' =
           Some (fst (LocalStorageProvider_delete ''*'' (options st) w),
                 st\<lparr>calls := calls st @
                   map (\<lambda>c. (c, \<lparr> ev_type = delete_action, ev_key = Some ''*'',
                                  ev_value = fst (LocalStorageProvider_delete ''*'' (options st) w) \<rparr>))
                     (subscribers st ''*:delete'' @ subscribers st ''*:delete'' @ subscribers st ''*:*'')\<rparr>,
                 snd (LocalStorageProvider_delete ''*'' (options st) w))
       \<and> (\<forall>c. count_list (subscribers st ''*:set'' @ subscribers st ''*:set'' @ subscribers st ''*:*'') c =
                 (if c \<in> set (subscribers st ''*:set'') then 2 else 0) +
                 (if c \<in> set (subscribers st ''*:*'') then 1 else 0))
       \<and> (\<forall>c. count_list (subscribers st ''*:delete'' @ subscribers st ''*:delete'' @ subscribers st ''*:*'') c =
                 (if c \<in> set (subscribers st ''*:delete'') then 2 else 0) +
                 (if c \<in> set (subscribers st ''*:*'') then 1 else 0))"
proof (intro conjI allI)
  show "Storage_set h fuel st w ''*'' v =
           Some (fst (LocalStorageProvider_set ''*'' v (options st) w),
                 st\<lparr>calls := calls st @
                   map (\<lambda>c. (c, \<lparr> ev_type = set_action, ev_key = Some ''*'',
                                  ev_value = fst (LocalStorageProvider_set ''*'' v (options st) w) \<rparr>))
                     (subscribers st ''*:set'' @ subscribers st ''*:set'' @ subscribers st ''*:*'')\<rparr>,
                 snd (LocalStorageProvider_set ''*'' v (options st) w))"
    using Storage_set_quiet[OF assms(1,2), of w "''*''" v] by (simp add: candidates_def)
  show "Storage_delete h fuel st w ''*'' =
           Some (fst (LocalStorageProvider_delete ''*'' (options st) w),
                 st\<lparr>calls := calls st @
                   map (\<lambda>c. (c, \<lparr> ev_type = delete_action, ev_key = Some ''*'',
                                  ev_value = fst (LocalStorageProvider_delete ''*'' (options st) w) \<rparr>))
                     (subscribers st ''*:delete'' @ subscribers st ''*:delete'' @ subscribers st ''*:*'')\<rparr>,
                 snd (LocalStorageProvider_delete ''*'' (options st) w))"
    using Storage_delete_quiet[OF assms(1,2), of w "''*''"] by (simp add: candidates_def)
  show "count_list (subscribers st ''*:set'' @ subscribers st ''*:set'' @ subscribers st ''*:*'') c =
                 (if c \<in> set (subscribers st ''*:set'') then 2 else 0) +
                 (if c \<in> set (subscribers st ''*:*'') then 1 else 0)" for c
    by (simp add: count_subscribers[OF assms(3)])
  show "count_list (subscribers st ''*:delete'' @ subscribers st ''*:delete'' @ subscribers st ''*:*'') c =
                 (if c \<in> set (subscribers st ''*:delete'') then 2 else 0) +
                 (if c \<in> set (subscribers st ''*:*'') then 1 else 0)" for c
    by (simp add: count_subscribers[OF assms(3)])
qed

theorem star_key_dispatch_witness:
  "Storage_set (\<lambda>c e. []) 4 st_star_demo host_on ''*'' (JBool True) =
     Some (JBool True,
           st_star_demo\<lparr>calls :=
             [(20, \<lparr> ev_type = set_action, ev_key = Some ''*'', ev_value = JBool True \<rparr>),
              (20, \<lparr> ev_type = set_action, ev_key = Some ''*'', ev_value = JBool True \<rparr>),
              (21, \<lparr> ev_type = set_action, ev_key = Some ''*'', ev_value = JBool True \<rparr>)]\<rparr>,
           host_on\<lparr>localStorage := [''*'' \<mapsto> ''true'']\<rparr>)
   \<and> Storage_delete (\<lambda>c e. []) 4 st_star_demo host_on ''*'' =
     Some (JNull,
           st_star_demo\<lparr>calls :=
             [(22, \<lparr> ev_type = delete_action, ev_key = Some ''*'', ev_value = JNull \<rparr>),
              (22, \<lparr> ev_type = delete_action, ev_key = Some ''*'', ev_value = JNull \<rparr>),
              (21, \<lparr> ev_type = delete_action, ev_key = Some ''*'', ev_value = JNull \<rparr>)]\<rparr>,
           host_on)"
proof -
  have e: "enough 4 st_star_demo" by (simp add: enough_def st_star_demo_def)
  have w: "wf st_star_demo" by (simp add: wf_def st_star_demo_def)
  have d: "host_on\<lparr>localStorage := (localStorage host_on)(''*'' := None)\<rparr> = host_on"
    by (simp add: host_on_def)
  show ?thesis
    using star_key_dispatch[OF quiet_none e w, of host_on "JBool True"]
    by (simp add: subscribers_def st_star_demo_def Map_get_def LocalStorageProvider_set_def
        LocalStorageProvider_delete_def LocalStorageProvider_get_def localStorage_setItem_def
        localStorage_getItem_def localStorage_removeItem_def prefixedKey_def
        defaultJSONSerializer_def host_on_def)
qed

section \<open>The store: provider and facade\<close>

text \<open>
  Claim C8. Without \<^verbatim>\<open>window\<close>, every operation of the provider leaves the store as it
  is: get, set and delete return null and clear returns. The operations are total
  functions: none of them has an error result.
\<close>

theorem medium_unavailable:
  assumes "\<not> window_defined w"
  shows "LocalStorageProvider_get k opts w = JNull \<and>
         LocalStorageProvider_set k v opts w = (JNull, w) \<and>
         LocalStorageProvider_delete k opts w = (JNull, w) \<and>
         LocalStorageProvider_clear opts w = w"
  using assms
  by (simp add: LocalStorageProvider_get_def LocalStorageProvider_set_def
      LocalStorageProvider_delete_def LocalStorageProvider_clear_def)

theorem medium_unavailable_witness:
  "LocalStorageProvider_get ''k'' (options st_demo) host_off = JNull \<and>
   LocalStorageProvider_set ''k'' (JBool False) (options st_demo) host_off = (JNull, host_off) \<and>
   LocalStorageProvider_delete ''k'' (options st_demo) host_off = (JNull, host_off) \<and>
   LocalStorageProvider_clear (options st_demo) host_off = host_off"
proof (rule medium_unavailable)
  show "\<not> window_defined host_off" by (simp add: host_off_def)
qed

lemma provider_get_after_set:
  assumes "window_defined w"
  shows "LocalStorageProvider_get k opts (snd (LocalStorageProvider_set k v opts w)) =
     parse (jsonSerializer opts)
       (case stringify (jsonSerializer opts) v of None \<Rightarrow> ''undefined'' | Some t \<Rightarrow> t)"
  using assms
  by (simp add: LocalStorageProvider_get_def LocalStorageProvider_set_def
      localStorage_getItem_def localStorage_setItem_def)

lemma provider_set_value:
  "window_defined w \<Longrightarrow> fst (LocalStorageProvider_set k v opts w) = v"
  by (simp add: LocalStorageProvider_set_def Let_def)

text \<open>
  Claim C6, as amended. With the store available, \<open>set(k, v)\<close> followed by \<open>get(k)\<close>
  returns \<open>v\<close> for every value \<open>v\<close> that the configured serializer round-trips, that is
  when parsing the text written for \<open>v\<close> gives \<open>v\<close> back.
\<close>

theorem set_get_roundtrip:
  assumes "window_defined w" and "quiet h" and "enough fuel st"
    and "parse (jsonSerializer (options st))
           (case stringify (jsonSerializer (options st)) v of
              None \<Rightarrow> ''undefined'' | Some t \<Rightarrow> t) = v"
  shows "\<exists>st' w'. Storage_set h fuel st w k v = Some (v, st', w') \<and> Storage_get st' w' k = v"
  using Storage_set_quiet[OF assms(2,3), of w k v] provider_get_after_set[OF assms(1), of k "options st" v]
    provider_set_value[OF assms(1), of k v "options st"] assms(4)
  by (simp add: Storage_get_def)

lemma parse_undefined: "JSON_parse ''undefined'' = Inl SyntaxError"
  by code_simp

lemma parse_empty_object: "JSON_parse ''{}'' = Inr (JObj [])"
  by code_simp

lemma products_roundtrip:
  "JSON_parse (case JSON_stringify products of None \<Rightarrow> ''undefined'' | Some t \<Rightarrow> t) = Inr products"
  by code_simp

lemma parse_true: "JSON_parse ''true'' = Inr (JBool True)"
  by code_simp

lemma enough_new: "enough 1 (Storage_new opts)"
  by (simp add: enough_def Storage_new_def)

theorem set_get_roundtrip_witness:
  "\<exists>st' w'. Storage_set (\<lambda>c e. []) 1 (Storage_new None) host_on ''products'' products = Some (products, st', w')
      \<and> Storage_get st' w' ''products'' = products"
proof (rule set_get_roundtrip[OF _ quiet_none enough_new])
  show "window_defined host_on" by (simp add: host_on_def)
  show "parse (jsonSerializer (options (Storage_new None)))
           (case stringify (jsonSerializer (options (Storage_new None))) products of
              None \<Rightarrow> ''undefined'' | Some t \<Rightarrow> t) = products"
    by (simp add: Storage_new_def defaultJSONSerializer_def products_roundtrip)
qed

text \<open>
  Claim C6 as stated fails for values that the default JSON serializer does not
  round-trip: after \<open>set(k, undefined)\<close> the store holds the text \<^verbatim>\<open>undefined\<close>, which
  \<^verbatim>\<open>JSON.parse\<close> rejects, so \<open>get(k)\<close> is null; and after \<open>set(k, {a: undefined})\<close>,
  \<open>get(k)\<close> is the empty object.
\<close>

theorem set_get_roundtrip_counterexample:
  "Storage_set (\<lambda>c e. []) 1 (Storage_new None) host_on ''k'' JUndefined =
     Some (JUndefined, Storage_new None, host_on\<lparr>localStorage := [''k'' \<mapsto> ''undefined'']\<rparr>)
   \<and> Storage_get (Storage_new None) (host_on\<lparr>localStorage := [''k'' \<mapsto> ''undefined'']\<rparr>) ''k'' = JNull
   \<and> JNull \<noteq> JUndefined
   \<and> Storage_set (\<lambda>c e. []) 1 (Storage_new None) host_on ''k'' (JObj [(''a'', JUndefined)]) =
     Some (JObj [(''a'', JUndefined)], Storage_new None, host_on\<lparr>localStorage := [''k'' \<mapsto> ''{}'']\<rparr>)
   \<and> Storage_get (Storage_new None) (host_on\<lparr>localStorage := [''k'' \<mapsto> ''{}'']\<rparr>) ''k'' = JObj []
   \<and> JObj [] \<noteq> JObj [(''a'', JUndefined)]"
  by (simp add: Storage_set_def Storage_get_def LocalStorageProvider_set_def LocalStorageProvider_get_def
      localStorage_setItem_def localStorage_getItem_def prefixedKey_def Storage_new_def host_on_def
      defaultJSONSerializer_def notify_def get_forEach_def Map_get_def key_text_def
      parse_undefined parse_empty_object)

lemma provider_delete_available:
  assumes "window_defined w"
  shows "LocalStorageProvider_delete k opts w =
     (LocalStorageProvider_get k opts w, localStorage_removeItem w (prefixedKey opts k))"
  using assms by (simp add: LocalStorageProvider_delete_def)

lemma provider_get_removed:
  "LocalStorageProvider_get k opts (localStorage_removeItem w (prefixedKey opts k)) = JNull"
  by (simp add: LocalStorageProvider_get_def localStorage_removeItem_def localStorage_getItem_def)

text \<open>
  Claim C7. With the store available and a string \<open>s\<close> stored under the prefixed key,
  \<open>delete(k)\<close> returns the value stored under \<open>k\<close>, the one that \<open>get(k)\<close> read before
  the call (the stored string, parsed), and \<open>get(k)\<close> after the call returns null.
\<close>

theorem delete_returns_stored:
  assumes "window_defined w" and "quiet h" and "enough fuel st"
    and "localStorage w (prefixedKey (options st) k) = Some s"
  shows "\<exists>st' w'. Storage_delete h fuel st w k = Some (parse (jsonSerializer (options st)) s, st', w')
           \<and> Storage_get st w k = parse (jsonSerializer (options st)) s
           \<and> Storage_get st' w' k = JNull"
proof -
  have g: "LocalStorageProvider_get k (options st) w = parse (jsonSerializer (options st)) s"
    using assms(1,4) by (simp add: LocalStorageProvider_get_def localStorage_getItem_def)
  show ?thesis
    using Storage_delete_quiet[OF assms(2,3), of w k] provider_delete_available[OF assms(1), of k "options st"]
      g provider_get_removed[of k "options st" w]
    by (simp add: Storage_get_def)
qed

theorem delete_returns_stored_witness:
  "\<exists>st' w'. Storage_delete (\<lambda>c e. []) 4 st_demo host_stored ''k'' = Some (JBool True, st', w')
           \<and> Storage_get st_demo host_stored ''k'' = JBool True
           \<and> Storage_get st' w' ''k'' = JNull"
proof -
  have w: "window_defined host_stored" by (simp add: host_stored_def)
  have e: "enough 4 st_demo" by (simp add: enough_def st_demo_def)
  have s: "localStorage host_stored (prefixedKey (options st_demo) ''k'') = Some ''true''"
    by (simp add: host_stored_def prefixedKey_def st_demo_def)
  have p: "parse (jsonSerializer (options st_demo)) ''true'' = JBool True"
    by (simp add: st_demo_def defaultJSONSerializer_def parse_true)
  show ?thesis
    using delete_returns_stored[OF w quiet_none e s] by (simp only: p)
qed

text \<open>
  Claim C10. Without \<^verbatim>\<open>window\<close> nothing is stored or removed, and still \<open>set(k, v)\<close>
  dispatches a set event whose value is null, \<open>delete(k)\<close> a delete event whose value is
  null, and \<open>clear()\<close> a clear event, to the subscribers that these events reach.
\<close>

theorem unavailable_dispatch:
  assumes "\<not> window_defined w" and "quiet h" and "enough fuel st" and "wf st"
  shows "Storage_set h fuel st w k v =
           Some (JNull,
                 st\<lparr>calls := calls st @
                   map (\<lambda>c. (c, \<lparr> ev_type = set_action, ev_key = Some k, ev_value = JNull \<rparr>))
                     (candidates st k set_action)\<rparr>,
                 w)
       \<and> Storage_delete h fuel st w k =
           Some (JNull,
                 st\<lparr>calls := calls st @
                   map (\<lambda>c. (c, \<lparr> ev_type = delete_action, ev_key = Some k, ev_value = JNull \<rparr>))
                     (candidates st k delete_action)\<rparr>,
                 w)
       \<and> Storage_clear h fuel st w =
           Some (st\<lparr>calls := calls st @
                   map (\<lambda>c. (c, \<lparr> ev_type = clear_action, ev_key = None, ev_value = JUndefined \<rparr>))
                     (concat (map (subscribers st) (clear_patterns st)))\<rparr>,
                 w)"
  using Storage_set_quiet[OF assms(2,3), of w k v] Storage_delete_quiet[OF assms(2,3), of w k]
    Storage_clear_quiet[OF assms(2,3,4), of w] assms(1)
  by (simp add: LocalStorageProvider_set_def LocalStorageProvider_delete_def
      LocalStorageProvider_clear_def)

theorem unavailable_dispatch_witness:
  "Storage_set (\<lambda>c e. []) 6 st_clear_demo host_off ''k'' (JBool False) =
     Some (JNull,
           st_clear_demo\<lparr>calls :=
             [(10, \<lparr> ev_type = set_action, ev_key = Some ''k'', ev_value = JNull \<rparr>)]\<rparr>,
           host_off)
   \<and> Storage_delete (\<lambda>c e. []) 6 st_clear_demo host_off ''k'' =
     Some (JNull,
           st_clear_demo\<lparr>calls :=
             [(14, \<lparr> ev_type = delete_action, ev_key = Some ''k'', ev_value = JNull \<rparr>)]\<rparr>,
           host_off)
   \<and> Storage_clear (\<lambda>c e. []) 6 st_clear_demo host_off =
       Some (st_clear_demo\<lparr>calls :=
               [(11, clear_event), (12, clear_event), (11, clear_event), (13, clear_event)]\<rparr>,
             host_off)"
proof -
  have w: "\<not> window_defined host_off" by (simp add: host_off_def)
  have e: "enough 6 st_clear_demo" by (simp add: enough_def st_clear_demo_def)
  show ?thesis
    using unavailable_dispatch[OF w quiet_none e wf_st_clear_demo, of "''k''" "JBool False"]
    by (simp add: candidates_def clear_patterns_def subscribers_def st_clear_demo_def Map_get_def
        endsWith_def clear_event_def)
qed

section \<open>Subscriptions: the invariant and the unsubscribe closure\<close>

lemma Set_delete_idem: "Set_delete (Set_delete S c) c = Set_delete S c"
  by (induction S) (auto simp: Set_delete_def)

lemma unsubscribe_idem: "unsubscribe u (unsubscribe u st) = unsubscribe u st"
proof (cases u)
  case (Pair a c)
  show ?thesis
  proof (cases "a < length (heap st)")
    case True
    then show ?thesis using Pair by (simp add: unsubscribe_def Set_delete_idem)
  next
    case False
    then show ?thesis using Pair by (simp add: unsubscribe_def list_update_beyond)
  qed
qed

lemma Map_set_present: "map_of m k = Some a \<Longrightarrow> Map_set m k a = m"
  by (induction m) (auto split: if_splits)

lemma Map_set_absent: "map_of m k = None \<Longrightarrow> Map_set m k a = m @ [(k, a)]"
  by (induction m) (auto split: if_splits)

lemma distinct_Set_add: "distinct (Set_values S) \<Longrightarrow> distinct (Set_values (Set_add S c))"
  by (auto simp: Set_add_def Set_values_append Set_values_mem)

lemma distinct_Set_delete: "distinct (Set_values S) \<Longrightarrow> distinct (Set_values (Set_delete S c))"
  by (simp add: Set_values_delete distinct_removeAll)

lemma wf_heap_update:
  assumes "wf st" and "distinct (Set_values S)"
  shows "wf (st\<lparr>heap := (heap st)[a := S]\<rparr>)"
  using assms unfolding wf_def list_all_iff
  by (auto dest: set_update_subset_insert[THEN subsetD])

lemma wf_unsubscribe: "wf st \<Longrightarrow> wf (unsubscribe u st)"
proof (cases u)
  case (Pair a c)
  assume w: "wf st"
  show ?thesis
  proof (cases "a < length (heap st)")
    case True
    then have "heap st ! a \<in> set (heap st)" by simp
    with w have "distinct (Set_values (heap st ! a))" by (auto simp: wf_def list_all_iff)
    then show ?thesis using Pair w by (simp add: unsubscribe_def wf_heap_update distinct_Set_delete)
  next
    case False
    then have "unsubscribe u st = st" using Pair by (simp add: unsubscribe_def list_update_beyond)
    with w show ?thesis by simp
  qed
qed

lemma removeEventListener_unsubscribe:
  "removeEventListener st p c =
     (case Map_get (subscribersMap st) p of None \<Rightarrow> st | Some a \<Rightarrow> unsubscribe (a, c) st)"
  by (simp add: removeEventListener_def unsubscribe_def split: option.splits)

lemma wf_removeEventListener: "wf st \<Longrightarrow> wf (removeEventListener st p c)"
  by (simp add: removeEventListener_unsubscribe wf_unsubscribe split: option.splits)

lemma wf_addEventListener:
  assumes "wf st"
  shows "wf (fst (addEventListener st p c))"
proof (cases "Map_get (subscribersMap st) p")
  case None
  let ?n = "length (heap st)"
  have m: "map_of (subscribersMap st) p = None" using None by (simp add: Map_get_def)
  have st': "fst (addEventListener st p c) =
      st\<lparr>subscribersMap := subscribersMap st @ [(p, ?n)], heap := heap st @ [[Some c]]\<rparr>"
    using None m by (simp add: addEventListener_def Map_set_absent Set_add_def)
  have "p \<notin> fst ` set (subscribersMap st)" using m by (simp add: map_of_eq_None_iff)
  moreover have "?n \<notin> snd ` set (subscribersMap st)"
    using assms unfolding wf_def list_all_iff by fastforce
  ultimately show ?thesis
    using assms unfolding st' wf_def list_all_iff by (auto simp: less_Suc_eq)
next
  case (Some a)
  have m: "map_of (subscribersMap st) p = Some a" using Some by (simp add: Map_get_def)
  then have "(p, a) \<in> set (subscribersMap st)" by (rule map_of_SomeD)
  with assms have a: "a < length (heap st)" by (auto simp: wf_def list_all_iff)
  then have "heap st ! a \<in> set (heap st)" by simp
  with assms have d: "distinct (Set_values (heap st ! a))" by (auto simp: wf_def list_all_iff)
  have st': "fst (addEventListener st p c) =
      st\<lparr>heap := (heap st)[a := Set_add (heap st ! a) c]\<rparr>"
    using Some m by (simp add: addEventListener_def Map_set_present)
  show ?thesis unfolding st' using assms d by (intro wf_heap_update distinct_Set_add)
qed

lemma wf_do_call: "wf st \<Longrightarrow> wf (do_call st x)"
  by (cases x) (simp_all add: wf_addEventListener wf_removeEventListener wf_unsubscribe)

lemma Map_get_addEventListener:
  "Map_get (subscribersMap st) p = Some a \<Longrightarrow>
   Map_get (subscribersMap (fst (addEventListener st q c))) p = Some a"
proof (cases "Map_get (subscribersMap st) q")
  case None
  assume "Map_get (subscribersMap st) p = Some a"
  then show ?thesis using None
    by (simp add: addEventListener_def Map_get_def Map_set_absent)
next
  case (Some b)
  assume "Map_get (subscribersMap st) p = Some a"
  then show ?thesis using Some
    by (simp add: addEventListener_def Map_get_def Map_set_present)
qed

lemma Map_get_do_call:
  "Map_get (subscribersMap st) p = Some a \<Longrightarrow> Map_get (subscribersMap (do_call st x)) p = Some a"
  by (cases x)
    (auto simp: Map_get_addEventListener removeEventListener_def unsubscribe_def split: option.splits prod.splits)

lemma foldl_do_call_invariant:
  assumes "P st" and "\<And>s x. P s \<Longrightarrow> P (do_call s x)"
  shows "P (foldl do_call st xs)"
  using assms(1) by (induction xs arbitrary: st) (auto intro: assms(2))

lemma invoke_invariant:
  assumes "P st" and "\<And>s x. P s \<Longrightarrow> P (do_call s x)" and "\<And>s cs. P s \<Longrightarrow> P (s\<lparr>calls := cs\<rparr>)"
  shows "P (invoke h cb event st)"
  unfolding invoke_def
  by (rule foldl_do_call_invariant) (auto intro: assms)

lemma Set_forEach_invariant:
  assumes "Set_forEach h n a i event st = Some st'" and "P st"
    and "\<And>s x. P s \<Longrightarrow> P (do_call s x)" and "\<And>s cs. P s \<Longrightarrow> P (s\<lparr>calls := cs\<rparr>)"
  shows "P st'"
  using assms(1,2)
proof (induction n arbitrary: i st)
  case 0
  then show ?case by simp
next
  case (Suc n)
  show ?case
  proof (cases "i < length (heap st ! a)")
    case False
    with Suc.prems show ?thesis by simp
  next
    case True
    show ?thesis
    proof (cases "heap st ! a ! i")
      case None
      with Suc.prems True have "Set_forEach h n a (Suc i) event st = Some st'" by simp
      then show ?thesis using Suc.prems(2) by (rule Suc.IH)
    next
      case (Some cb)
      with Suc.prems True
      have "Set_forEach h n a (Suc i) event (invoke h cb event st) = Some st'" by simp
      moreover have "P (invoke h cb event st)"
        using Suc.prems(2) by (rule invoke_invariant) (fact assms(3,4))+
      ultimately show ?thesis by (rule Suc.IH)
    qed
  qed
qed

lemma Map_forEach_invariant:
  assumes "Map_forEach h fuel n i event st = Some st'" and "P st"
    and "\<And>s x. P s \<Longrightarrow> P (do_call s x)" and "\<And>s cs. P s \<Longrightarrow> P (s\<lparr>calls := cs\<rparr>)"
  shows "P st'"
  using assms(1,2)
proof (induction n arbitrary: i st)
  case 0
  then show ?case by simp
next
  case (Suc n)
  show ?case
  proof (cases "i < length (subscribersMap st)")
    case False
    with Suc.prems show ?thesis by simp
  next
    case True
    obtain p a where pa: "subscribersMap st ! i = (p, a)" by (cases "subscribersMap st ! i")
    show ?thesis
    proof (cases "endsWith p '':*'' \<or> endsWith p '':clear''")
      case False
      with Suc.prems True pa have "Map_forEach h fuel n (Suc i) event st = Some st'" by simp
      then show ?thesis using Suc.prems(2) by (rule Suc.IH)
    next
      case m: True
      show ?thesis
      proof (cases "Set_forEach h fuel a 0 event st")
        case None
        with Suc.prems True pa m show ?thesis by simp
      next
        case (Some st1)
        with Suc.prems True pa m have "Map_forEach h fuel n (Suc i) event st1 = Some st'" by simp
        moreover have "P st1"
          using Some Suc.prems(2) by (rule Set_forEach_invariant) (fact assms(3,4))+
        ultimately show ?thesis by (rule Suc.IH)
      qed
    qed
  qed
qed

lemma get_forEach_invariant:
  assumes "get_forEach h fuel p event st = Some st'" and "P st"
    and "\<And>s x. P s \<Longrightarrow> P (do_call s x)" and "\<And>s cs. P s \<Longrightarrow> P (s\<lparr>calls := cs\<rparr>)"
  shows "P st'"
proof (cases "Map_get (subscribersMap st) p")
  case None
  with assms(1,2) show ?thesis by (simp add: get_forEach_def)
next
  case (Some a)
  with assms(1) have "Set_forEach h fuel a 0 event st = Some st'" by (simp add: get_forEach_def)
  then show ?thesis using assms(2) by (rule Set_forEach_invariant) (fact assms(3,4))+
qed

lemma notify_invariant:
  assumes "notify h fuel event st = Some st'" and "P st"
    and "\<And>s x. P s \<Longrightarrow> P (do_call s x)" and "\<And>s cs. P s \<Longrightarrow> P (s\<lparr>calls := cs\<rparr>)"
  shows "P st'"
proof (cases "ev_type event = clear_action")
  case True
  with assms(1) have "Map_forEach h fuel fuel 0 event st = Some st'" by (simp add: notify_def)
  then show ?thesis using assms(2) by (rule Map_forEach_invariant) (fact assms(3,4))+
next
  case False
  with assms(1) obtain st1 st2 where
    1: "get_forEach h fuel (key_text (ev_key event) @ '':'' @ action_name (ev_type event)) event st = Some st1"
    and 2: "get_forEach h fuel (''*:'' @ action_name (ev_type event)) event st1 = Some st2"
    and 3: "get_forEach h fuel (key_text (ev_key event) @ '':*'') event st2 = Some st'"
    by (auto simp: notify_def split: option.splits)
  from 1 assms(2) have "P st1" by (rule get_forEach_invariant) (fact assms(3,4))+
  with 2 have "P st2" by (rule get_forEach_invariant) (fact assms(3,4))+
  with 3 show ?thesis by (rule get_forEach_invariant) (fact assms(3,4))+
qed

lemma later_invariant:
  assumes "later st st'" and "P st"
    and "\<And>s x. P s \<Longrightarrow> P (do_call s x)" and "\<And>s cs. P s \<Longrightarrow> P (s\<lparr>calls := cs\<rparr>)"
  shows "P st'"
  using assms(1,2)
proof (induction rule: later.induct)
  case (later_refl st)
  then show ?case .
next
  case (later_call st st1 x)
  then show ?case by (auto intro: assms(3))
next
  case (later_notify st st1 h n event st2)
  then have "P st1" by simp
  with later_notify(2) show ?case by (rule notify_invariant) (fact assms(3,4))+
qed

lemma wf_calls [simp]: "wf (st\<lparr>calls := cs\<rparr>) = wf st"
  by (simp add: wf_def)

lemma later_wf: "later st st' \<Longrightarrow> wf st \<Longrightarrow> wf st'"
  by (rule later_invariant[where P = wf]) (simp_all add: wf_do_call)

lemma wf_Storage_new: "wf (Storage_new opts)"
  by (simp add: wf_def Storage_new_def)

lemma wf_reachable: "later (Storage_new opts) st \<Longrightarrow> wf st"
  using wf_Storage_new by (rule later_wf[rotated])

lemma later_Map_get:
  "later st st' \<Longrightarrow> Map_get (subscribersMap st) p = Some a \<Longrightarrow> Map_get (subscribersMap st') p = Some a"
  by (rule later_invariant[where P = "\<lambda>s. Map_get (subscribersMap s) p = Some a"])
    (simp_all add: Map_get_do_call)

lemma addEventListener_closure:
  "\<exists>a. snd (addEventListener st p c) = (a, c) \<and>
       Map_get (subscribersMap (fst (addEventListener st p c))) p = Some a"
proof (cases "Map_get (subscribersMap st) p")
  case None
  then show ?thesis by (simp add: addEventListener_def Map_get_def Map_set_absent map_add_def)
next
  case (Some a)
  then show ?thesis by (simp add: addEventListener_def Map_get_def Map_set_present)
qed

lemma subscribers_addEventListener:
  assumes "wf st"
  shows "c \<in> set (subscribers (fst (addEventListener st p c)) p)"
proof (cases "Map_get (subscribersMap st) p")
  case None
  then show ?thesis
    by (simp add: addEventListener_def Map_get_def Map_set_absent subscribers_def Set_add_def map_add_def)
next
  case (Some a)
  then have "(p, a) \<in> set (subscribersMap st)" by (auto simp: Map_get_def dest: map_of_SomeD)
  with assms have "a < length (heap st)" by (auto simp: wf_def list_all_iff)
  then show ?thesis using Some
    by (auto simp: addEventListener_def Map_get_def Map_set_present subscribers_def Set_add_def
        Set_values_append Set_values_mem)
qed

lemma subscribers_unsubscribe:
  assumes "wf st" and "Map_get (subscribersMap st) p = Some a"
  shows "subscribers (unsubscribe (a, c) st) q =
           (if q = p then removeAll c (subscribers st p) else subscribers st q)"
proof -
  from assms(2) have pa: "(p, a) \<in> set (subscribersMap st)"
    by (auto simp: Map_get_def dest: map_of_SomeD)
  with assms(1) have a: "a < length (heap st)" by (auto simp: wf_def list_all_iff)
  show ?thesis
  proof (cases "q = p")
    case True
    then show ?thesis using assms(2) a
      by (simp add: subscribers_def unsubscribe_def Set_values_delete)
  next
    case False
    show ?thesis
    proof (cases "Map_get (subscribersMap st) q")
      case None
      then show ?thesis using False by (simp add: subscribers_def unsubscribe_def)
    next
      case (Some b)
      then have qb: "(q, b) \<in> set (subscribersMap st)"
        by (auto simp: Map_get_def dest: map_of_SomeD)
      have "inj_on snd (set (subscribersMap st))"
        using assms(1) by (simp add: wf_def distinct_map)
      have "b \<noteq> a"
      proof
        assume "b = a"
        then have "snd (q, b) = snd (p, a)" by simp
        with inj_onD[OF \<open>inj_on snd (set (subscribersMap st))\<close> this qb pa] False
        show False by simp
      qed
      then show ?thesis using Some False by (simp add: subscribers_def unsubscribe_def)
    qed
  qed
qed

text \<open>
  Claim C4. Let \<open>u\<close> be the closure returned by subscribing \<open>c\<close> under \<open>p\<close> in a
  well-formed state, and \<open>st2\<close> any later state of the object. Invoking \<open>u\<close> in \<open>st2\<close>
  removes \<open>c\<close> from the subscribers of \<open>p\<close> and keeps the others in their order, leaves the
  subscribers of every other pattern, the map and the record of calls as they are, and
  invoking \<open>u\<close> once more changes nothing.
\<close>

theorem closure_removes_subscription:
  assumes "wf st" and "addEventListener st p c = (st1, u)" and "later st1 st2"
  shows "c \<in> set (subscribers st1 p)
       \<and> subscribers (unsubscribe u st2) p = removeAll c (subscribers st2 p)
       \<and> (\<forall>q. q \<noteq> p \<longrightarrow> subscribers (unsubscribe u st2) q = subscribers st2 q)
       \<and> subscribersMap (unsubscribe u st2) = subscribersMap st2
       \<and> calls (unsubscribe u st2) = calls st2
       \<and> unsubscribe u (unsubscribe u st2) = unsubscribe u st2"
proof -
  from addEventListener_closure[of st p c] assms(2)
  obtain a where u: "u = (a, c)" and m1: "Map_get (subscribersMap st1) p = Some a" by auto
  have w1: "wf st1" using wf_addEventListener[OF assms(1), of p c] assms(2) by simp
  have w2: "wf st2" using assms(3) w1 by (rule later_wf)
  have m2: "Map_get (subscribersMap st2) p = Some a" using assms(3) m1 by (rule later_Map_get)
  have "c \<in> set (subscribers st1 p)"
    using subscribers_addEventListener[OF assms(1), of c p] assms(2) by simp
  moreover have "subscribersMap (unsubscribe u st2) = subscribersMap st2"
    and "calls (unsubscribe u st2) = calls st2"
    by (simp_all add: unsubscribe_def split: prod.splits)
  ultimately show ?thesis
    using subscribers_unsubscribe[OF w2 m2] unsubscribe_idem[of u st2] u by simp
qed

lemma snd_sub: "snd (addEventListener st_demo ''*:set'' 13) = (2, 13)"
  by (simp add: addEventListener_def st_demo_def Map_get_def)

lemma s1: "subscribers st_sub2 ''*:set'' = [12, 10, 13]"
  by (simp add: st_sub2_def st_sub_def subscribers_def st_demo_def Map_get_def addEventListener_def Set_add_def)

lemma s2: "subscribers st_sub2 ''k:set'' = [10, 13]"
  by (simp add: st_sub2_def st_sub_def subscribers_def st_demo_def Map_get_def addEventListener_def Set_add_def)

theorem closure_removes_subscription_witness:
  "subscribers (unsubscribe (2, 13) st_sub2) ''*:set'' = [12, 10]
   \<and> subscribers (unsubscribe (2, 13) st_sub2) ''k:set'' = [10, 13]
   \<and> unsubscribe (2, 13) (unsubscribe (2, 13) st_sub2) = unsubscribe (2, 13) st_sub2"
proof -
  have a: "addEventListener st_demo ''*:set'' 13 = (st_sub, (2, 13))"
    using snd_sub by (simp add: st_sub_def prod_eq_iff)
  have l: "later st_sub st_sub2"
    unfolding st_sub2_def by (intro later_call later_refl)
  note t = closure_removes_subscription[OF wf_st_demo a l]
  from t have 1: "subscribers (unsubscribe (2, 13) st_sub2) ''*:set'' = removeAll 13 (subscribers st_sub2 ''*:set'')"
    by (rule conjunct1[OF conjunct2])
  from t have "\<forall>q. q \<noteq> ''*:set'' \<longrightarrow> subscribers (unsubscribe (2, 13) st_sub2) q = subscribers st_sub2 q"
    by (rule conjunct1[OF conjunct2[OF conjunct2]])
  then have 2: "subscribers (unsubscribe (2, 13) st_sub2) ''k:set'' = subscribers st_sub2 ''k:set''"
    by simp
  from t have 3: "unsubscribe (2, 13) (unsubscribe (2, 13) st_sub2) = unsubscribe (2, 13) st_sub2"
    by (rule conjunct2[OF conjunct2[OF conjunct2[OF conjunct2[OF conjunct2]]]])
  show ?thesis
    unfolding 1 2 s1 s2 using 3 by simp
qed

section \<open>Callbacks that subscribe or unsubscribe during a dispatch\<close>

text \<open>
  Claim C3 as stated fails: the code takes no snapshot. In \<open>st_live\<close> the callbacks \<open>1\<close>
  and \<open>2\<close> are subscribed under \<open>k:set\<close> when a set event on \<open>k\<close> is dispatched. When
  callback \<open>1\<close> unsubscribes callback \<open>2\<close>, the dispatch in progress does not invoke \<open>2\<close>;
  when callback \<open>1\<close> subscribes a callback \<open>3\<close> under \<open>k:set\<close>, the dispatch in progress
  invokes \<open>3\<close>. A dispatch over snapshots invokes \<open>1\<close> and \<open>2\<close> in both cases.
\<close>

theorem snapshot_counterexample:
  "subscribers st_live ''k:set'' = [1, 2]
   \<and> map_option calls (notify h_unsub 3 set_k_event st_live) = Some [(1, set_k_event)]
   \<and> map_option calls (notify_snapshot h_unsub 3 set_k_event st_live) =
        Some [(1, set_k_event), (2, set_k_event)]
   \<and> map_option calls (notify h_sub 4 set_k_event st_live) =
        Some [(1, set_k_event), (2, set_k_event), (3, set_k_event)]
   \<and> map_option calls (notify_snapshot h_sub 4 set_k_event st_live) =
        Some [(1, set_k_event), (2, set_k_event)]"
  by (simp add: subscribers_def st_live_def Map_get_def notify_def notify_snapshot_def
      get_forEach_def get_forEach_snapshot_def Set_forEach_snapshot_def
      eval_nat_numeral invoke_def h_unsub_def h_sub_def set_k_event_def key_text_def
      removeEventListener_def addEventListener_def Set_delete_def Set_add_def)

lemma foldl_invoke_calm:
  "\<forall>c \<in> set cs. h c event = [] \<Longrightarrow>
   foldl (\<lambda>s cb. invoke h cb event s) st cs = st\<lparr>calls := calls st @ map (\<lambda>c. (c, event)) cs\<rparr>"
proof (induction cs arbitrary: st)
  case Nil
  then show ?case by simp
next
  case (Cons c cs)
  then show ?case by (simp add: invoke_calm)
qed

lemma get_forEach_snapshot_quiet:
  assumes "quiet h"
  shows "get_forEach_snapshot h p event st =
     st\<lparr>calls := calls st @ map (\<lambda>c. (c, event)) (subscribers st p)\<rparr>"
proof (cases "Map_get (subscribersMap st) p")
  case None
  then show ?thesis by (simp add: get_forEach_snapshot_def subscribers_def)
next
  case (Some a)
  have "\<forall>c \<in> set (Set_values (heap st ! a)). h c event = []"
    using assms by (simp add: quiet_calm)
  then show ?thesis using Some
    by (simp add: get_forEach_snapshot_def Set_forEach_snapshot_def subscribers_def foldl_invoke_calm)
qed

lemma Map_forEach_snapshot_quiet:
  assumes "quiet h"
  shows "length (subscribersMap st) - i < n \<Longrightarrow>
     Map_forEach_snapshot h n i event st =
       Some (st\<lparr>calls := calls st @ map (\<lambda>c. (c, event))
          (concat (map (\<lambda>(p, a). if endsWith p '':*'' \<or> endsWith p '':clear''
                                  then Set_values (heap st ! a) else [])
                   (drop i (subscribersMap st))))\<rparr>)"
proof (induction n arbitrary: i st)
  case 0
  then show ?case by simp
next
  case (Suc n)
  let ?m = "subscribersMap st"
  show ?case
  proof (cases "i < length ?m")
    case False
    then show ?thesis by simp
  next
    case True
    then have d: "drop i ?m = ?m ! i # drop (Suc i) ?m"
      by (simp add: Cons_nth_drop_Suc)
    obtain p a where pa: "?m ! i = (p, a)" by (cases "?m ! i")
    show ?thesis
    proof (cases "endsWith p '':*'' \<or> endsWith p '':clear''")
      case False
      have "Map_forEach_snapshot h n (Suc i) event st =
       Some (st\<lparr>calls := calls st @ map (\<lambda>c. (c, event))
          (concat (map (\<lambda>(p, a). if endsWith p '':*'' \<or> endsWith p '':clear''
                                  then Set_values (heap st ! a) else [])
                   (drop (Suc i) (subscribersMap st))))\<rparr>)"
        using Suc.prems True by (intro Suc.IH) auto
      then show ?thesis using True pa d False by simp
    next
      case m: True
      let ?st = "st\<lparr>calls := calls st @ map (\<lambda>c. (c, event)) (Set_values (heap st ! a))\<rparr>"
      have "\<forall>c \<in> set (Set_values (heap st ! a)). h c event = []"
        using assms by (simp add: quiet_calm)
      then have inner: "Set_forEach_snapshot h a event st = ?st"
        by (simp add: Set_forEach_snapshot_def foldl_invoke_calm)
      have "Map_forEach_snapshot h n (Suc i) event ?st =
       Some (?st\<lparr>calls := calls ?st @ map (\<lambda>c. (c, event))
          (concat (map (\<lambda>x. if endsWith (fst x) '':*'' \<or> endsWith (fst x) '':clear''
                                  then Set_values (heap st ! snd x) else [])
                   (drop (Suc i) (subscribersMap st))))\<rparr>)"
        using Suc.IH[of ?st "Suc i"] Suc.prems True by (simp add: case_prod_beta cong: if_cong)
      then show ?thesis using True pa d m inner by (simp add: case_prod_beta)
    qed
  qed
qed

lemma notify_snapshot_quiet:
  assumes "quiet h" and "enough fuel st"
  shows "notify h fuel event st = notify_snapshot h fuel event st \<and> notify h fuel event st \<noteq> None"
proof (cases "ev_type event = clear_action")
  case True
  have l: "length (subscribersMap st) - 0 < fuel" using assms(2) by (simp add: enough_def)
  show ?thesis
    using Map_forEach_quiet[OF assms l, of event] Map_forEach_snapshot_quiet[OF assms(1) l, of event] True
    by (simp add: notify_def notify_snapshot_def)
next
  case False
  show ?thesis
    using notify_quiet[OF assms False] False
    by (simp add: notify_snapshot_def get_forEach_snapshot_quiet[OF assms(1)] candidates_def)
qed

lemma wf_address:
  "wf st \<Longrightarrow> Map_get (subscribersMap st) p = Some a \<Longrightarrow> a < length (heap st)"
  by (auto simp: wf_def list_all_iff Map_get_def dest: map_of_SomeD)

subsection \<open>Calls of a callback, one by one\<close>

lemma calls_do_call [simp]: "calls (do_call s x) = calls s"
  by (cases x)
    (auto simp: addEventListener_def removeEventListener_def unsubscribe_def Let_def
      split: option.splits prod.splits)

lemma calls_foldl_do_call [simp]: "calls (foldl do_call s xs) = calls s"
  by (induction xs arbitrary: s) auto

lemma calls_invoke [simp]: "calls (invoke h cb event s) = calls s @ [(cb, event)]"
  by (simp add: invoke_def)

lemma wf_invoke: "wf s \<Longrightarrow> wf (invoke h cb event s)"
  unfolding invoke_def by (rule foldl_do_call_invariant) (simp_all add: wf_do_call)

lemma Map_get_invoke:
  "Map_get (subscribersMap s) p = Some a \<Longrightarrow> Map_get (subscribersMap (invoke h cb event s)) p = Some a"
  unfolding invoke_def
  by (rule foldl_do_call_invariant[where P = "\<lambda>s. Map_get (subscribersMap s) p = Some a"])
    (simp_all add: Map_get_do_call)

lemma subscribers_mem:
  "Map_get (subscribersMap s) q = Some b \<Longrightarrow> Some cb \<in> set (heap s ! b) \<Longrightarrow> cb \<in> set (subscribers s q)"
  by (simp add: subscribers_def Set_values_mem)

lemma subscribers_unsubscribe_subset:
  "set (subscribers (unsubscribe u s) q) \<subseteq> set (subscribers s q)"
proof (cases u)
  case (Pair b c)
  show ?thesis
  proof (cases "Map_get (subscribersMap s) q")
    case None
    then show ?thesis using Pair by (simp add: subscribers_def unsubscribe_def)
  next
    case (Some a)
    show ?thesis
    proof (cases "a = b \<and> b < length (heap s)")
      case True
      then show ?thesis using Pair Some
        by (auto simp: subscribers_def unsubscribe_def Set_values_delete)
    next
      case False
      then have "(heap s)[b := Set_delete (heap s ! b) c] ! a = heap s ! a"
        by (cases "b < length (heap s)") (auto simp: list_update_beyond)
      then show ?thesis using Pair Some by (simp add: subscribers_def unsubscribe_def)
    qed
  qed
qed

lemma subscribers_add_subset:
  assumes "wf s"
  shows "set (subscribers (fst (addEventListener s r c)) q) \<subseteq> insert c (set (subscribers s q))"
proof (cases "Map_get (subscribersMap s) r")
  case None
  let ?n = "length (heap s)"
  have m: "map_of (subscribersMap s) r = None" using None by (simp add: Map_get_def)
  have st': "fst (addEventListener s r c) =
      s\<lparr>subscribersMap := subscribersMap s @ [(r, ?n)], heap := heap s @ [[Some c]]\<rparr>"
    using None m by (simp add: addEventListener_def Map_set_absent Set_add_def)
  show ?thesis
  proof (cases "Map_get (subscribersMap s) q")
    case n: None
    then show ?thesis unfolding st'
      by (auto simp: subscribers_def Map_get_def map_add_def split: option.splits if_splits)
  next
    case (Some b)
    then have "(q, b) \<in> set (subscribersMap s)" by (auto simp: Map_get_def dest: map_of_SomeD)
    with assms have "b < length (heap s)" by (auto simp: wf_def list_all_iff)
    then show ?thesis unfolding st' using Some
      by (auto simp: subscribers_def Map_get_def map_add_def nth_append split: option.splits)
  qed
next
  case (Some a)
  have m: "map_of (subscribersMap s) r = Some a" using Some by (simp add: Map_get_def)
  then have "(r, a) \<in> set (subscribersMap s)" by (rule map_of_SomeD)
  with assms have a: "a < length (heap s)" by (auto simp: wf_def list_all_iff)
  have st': "fst (addEventListener s r c) = s\<lparr>heap := (heap s)[a := Set_add (heap s ! a) c]\<rparr>"
    using Some m by (simp add: addEventListener_def Map_set_present)
  show ?thesis
  proof (cases "Map_get (subscribersMap s) q")
    case None
    then show ?thesis unfolding st' by (simp add: subscribers_def)
  next
    case b: (Some b)
    show ?thesis
    proof (cases "b = a")
      case True
      then show ?thesis unfolding st' using b a
        by (auto simp: subscribers_def Set_add_def Set_values_append)
    next
      case False
      then show ?thesis unfolding st' using b by (auto simp: subscribers_def)
    qed
  qed
qed

lemma subscribers_do_call_subset:
  assumes "wf s" and "\<not> adds x c" and "c \<in> set (subscribers (do_call s x) q)"
  shows "c \<in> set (subscribers s q)"
proof (cases x)
  case (AddListener r c')
  with assms(2) have "c' \<noteq> c" by simp
  with subscribers_add_subset[OF assms(1), of r c' q] assms(3) AddListener show ?thesis by auto
next
  case (RemoveListener r c')
  with assms(3) show ?thesis
    using subscribers_unsubscribe_subset[of _ s q]
    by (auto simp: removeEventListener_unsubscribe split: option.splits)
next
  case (CallUnsubscribe u)
  with assms(3) show ?thesis using subscribers_unsubscribe_subset[of u s q] by auto
qed

subsection \<open>Invariants of a dispatch with arbitrary callbacks\<close>

lemma Set_forEach_inv:
  assumes "Set_forEach h n a i event s = Some s'" and "P s"
    and "\<And>s cb. P s \<Longrightarrow> Some cb \<in> set (heap s ! a) \<Longrightarrow> P (invoke h cb event s)"
  shows "P s'"
  using assms(1,2)
proof (induction n arbitrary: i s)
  case 0
  then show ?case by simp
next
  case (Suc n)
  show ?case
  proof (cases "i < length (heap s ! a)")
    case False
    with Suc.prems show ?thesis by simp
  next
    case True
    show ?thesis
    proof (cases "heap s ! a ! i")
      case None
      with Suc.prems True have "Set_forEach h n a (Suc i) event s = Some s'" by simp
      then show ?thesis using Suc.prems(2) by (rule Suc.IH)
    next
      case (Some cb)
      with Suc.prems True
      have "Set_forEach h n a (Suc i) event (invoke h cb event s) = Some s'" by simp
      moreover have "Some cb \<in> set (heap s ! a)" using True Some by (metis nth_mem)
      then have "P (invoke h cb event s)" using Suc.prems(2) assms(3) by blast
      ultimately show ?thesis by (rule Suc.IH)
    qed
  qed
qed

lemma get_forEach_inv:
  assumes "get_forEach h fuel q event s = Some s'" and "P s"
    and step: "\<And>s cb. P s \<Longrightarrow> cb \<in> set (subscribers s q) \<Longrightarrow> P (invoke h cb event s)"
  shows "P s'"
proof (cases "Map_get (subscribersMap s) q")
  case None
  with assms(1,2) show ?thesis by (simp add: get_forEach_def)
next
  case (Some b)
  with assms(1) have run: "Set_forEach h fuel b 0 event s = Some s'" by (simp add: get_forEach_def)
  have "P s' \<and> Map_get (subscribersMap s') q = Some b"
  proof (rule Set_forEach_inv[where P = "\<lambda>s. P s \<and> Map_get (subscribersMap s) q = Some b", OF run])
    show "P s \<and> Map_get (subscribersMap s) q = Some b" using assms(2) Some by simp
  next
    fix t cb
    assume "P t \<and> Map_get (subscribersMap t) q = Some b" and "Some cb \<in> set (heap t ! b)"
    then show "P (invoke h cb event t) \<and> Map_get (subscribersMap (invoke h cb event t)) q = Some b"
      using step[of t cb] by (simp add: subscribers_mem Map_get_invoke)
  qed
  then show ?thesis by simp
qed

lemma wf_entry:
  assumes "wf s" and "i < length (subscribersMap s)" and "subscribersMap s ! i = (q, b)"
  shows "Map_get (subscribersMap s) q = Some b"
proof -
  have "(q, b) \<in> set (subscribersMap s)" using assms(2,3) by (metis nth_mem)
  moreover have "distinct (map fst (subscribersMap s))" using assms(1) by (simp add: wf_def)
  ultimately show ?thesis by (simp add: Map_get_def)
qed

lemma Map_forEach_inv:
  assumes "Map_forEach h fuel n i event s = Some s'" and "P s" and "\<And>s. P s \<Longrightarrow> wf s"
    and step: "\<And>s q cb. P s \<Longrightarrow> cb \<in> set (subscribers s q) \<Longrightarrow> P (invoke h cb event s)"
  shows "P s'"
  using assms(1,2)
proof (induction n arbitrary: i s)
  case 0
  then show ?case by simp
next
  case (Suc n)
  show ?case
  proof (cases "i < length (subscribersMap s)")
    case False
    with Suc.prems show ?thesis by simp
  next
    case True
    obtain q b where qb: "subscribersMap s ! i = (q, b)" by (cases "subscribersMap s ! i")
    show ?thesis
    proof (cases "endsWith q '':*'' \<or> endsWith q '':clear''")
      case False
      with Suc.prems True qb have "Map_forEach h fuel n (Suc i) event s = Some s'" by simp
      then show ?thesis using Suc.prems(2) by (rule Suc.IH)
    next
      case m: True
      show ?thesis
      proof (cases "Set_forEach h fuel b 0 event s")
        case None
        with Suc.prems True qb m show ?thesis by simp
      next
        case (Some s1)
        with Suc.prems True qb m have rest: "Map_forEach h fuel n (Suc i) event s1 = Some s'" by simp
        have g: "Map_get (subscribersMap s) q = Some b"
          using assms(3)[OF Suc.prems(2)] True qb by (rule wf_entry)
        have "get_forEach h fuel q event s = Some s1" using Some g by (simp add: get_forEach_def)
        then have "P s1" using Suc.prems(2)
          by (rule get_forEach_inv) (rule step)
        with rest show ?thesis by (rule Suc.IH)
      qed
    qed
  qed
qed

subsection \<open>The part of a dispatch before the first callback that calls back\<close>

lemma Set_forEach_prefix:
  assumes "Set_forEach h n a i event s = Some s'"
    and "heap s ! a = before @ pre @ rest" and "i = length before"
    and "\<forall>c \<in> set (Set_values pre). h c event = []"
  shows "\<exists>n'. Set_forEach h n' a (i + length pre) event
            (s\<lparr>calls := calls s @ map (\<lambda>c. (c, event)) (Set_values pre)\<rparr>) = Some s'"
  using assms
proof (induction pre arbitrary: n i before s)
  case Nil
  then show ?case by auto
next
  case (Cons e pre)
  obtain m where n: "n = Suc m" using Cons.prems(1) by (cases n) auto
  have len: "i < length (heap s ! a)" using Cons.prems(2,3) by simp
  have ent: "heap s ! a ! i = e" using Cons.prems(2,3) by (simp add: nth_append)
  have split: "heap s ! a = (before @ [e]) @ pre @ rest" using Cons.prems(2) by simp
  show ?case
  proof (cases e)
    case None
    have run: "Set_forEach h m a (Suc i) event s = Some s'"
      using Cons.prems(1) len ent None by (simp add: n)
    have "\<exists>n'. Set_forEach h n' a (Suc i + length pre) event
            (s\<lparr>calls := calls s @ map (\<lambda>c. (c, event)) (Set_values pre)\<rparr>) = Some s'"
      using run split Cons.prems(3,4) None by (intro Cons.IH) auto
    then show ?thesis using None by simp
  next
    case (Some c)
    have hc: "h c event = []" using Cons.prems(4) Some by simp
    let ?s = "s\<lparr>calls := calls s @ [(c, event)]\<rparr>"
    have run: "Set_forEach h m a (Suc i) event ?s = Some s'"
      using Cons.prems(1) len ent Some hc by (simp add: n invoke_calm)
    have "\<exists>n'. Set_forEach h n' a (Suc i + length pre) event
            (?s\<lparr>calls := calls ?s @ map (\<lambda>c. (c, event)) (Set_values pre)\<rparr>) = Some s'"
      using run split Cons.prems(3,4) Some by (intro Cons.IH) auto
    then show ?thesis using Some by simp
  qed
qed

lemma Set_forEach_silent:
  assumes "Set_forEach h n a 0 event s = Some s'"
    and "\<forall>c \<in> set (Set_values (heap s ! a)). h c event = []"
  shows "s' = s\<lparr>calls := calls s @ map (\<lambda>c. (c, event)) (Set_values (heap s ! a))\<rparr>"
proof -
  have "heap s ! a = [] @ (heap s ! a) @ []" by simp
  from Set_forEach_prefix[OF assms(1) this _ assms(2)]
  obtain n' where "Set_forEach h n' a (length (heap s ! a)) event
            (s\<lparr>calls := calls s @ map (\<lambda>c. (c, event)) (Set_values (heap s ! a))\<rparr>) = Some s'"
    by auto
  then show ?thesis by (cases n') auto
qed

lemma get_forEach_silent:
  assumes "get_forEach h fuel q event s = Some s'"
    and "\<forall>c \<in> set (subscribers s q). h c event = []"
  shows "s' = s\<lparr>calls := calls s @ map (\<lambda>c. (c, event)) (subscribers s q)\<rparr>"
proof (cases "Map_get (subscribersMap s) q")
  case None
  with assms(1) show ?thesis by (simp add: get_forEach_def subscribers_def)
next
  case (Some b)
  with assms(1) have "Set_forEach h fuel b 0 event s = Some s'" by (simp add: get_forEach_def)
  moreover have "\<forall>c \<in> set (Set_values (heap s ! b)). h c event = []"
    using assms(2) Some by (simp add: subscribers_def)
  ultimately have "s' = s\<lparr>calls := calls s @ map (\<lambda>c. (c, event)) (Set_values (heap s ! b))\<rparr>"
    by (rule Set_forEach_silent)
  then show ?thesis using Some by (simp add: subscribers_def)
qed

lemma matching_sets_calls [simp]: "matching_sets (s\<lparr>calls := cs\<rparr>) m = matching_sets s m"
  by (simp add: matching_sets_def cong: if_cong)

lemma matching_sets_Cons:
  "matching_sets s ((q, b) # m) =
     (if endsWith q '':*'' \<or> endsWith q '':clear'' then Set_values (heap s ! b) else []) @ matching_sets s m"
  by (simp add: matching_sets_def)

lemma Map_forEach_prefix:
  assumes "Map_forEach h fuel n i event s = Some s'"
    and "subscribersMap s = before @ mid @ rest" and "i = length before"
    and "\<forall>c \<in> set (matching_sets s mid). h c event = []"
  shows "\<exists>n'. Map_forEach h fuel n' (i + length mid) event
            (s\<lparr>calls := calls s @ map (\<lambda>c. (c, event)) (matching_sets s mid)\<rparr>) = Some s'"
  using assms
proof (induction mid arbitrary: n i before s)
  case Nil
  then show ?case by (auto simp: matching_sets_def)
next
  case (Cons e mid)
  obtain q b where e: "e = (q, b)" by (cases e)
  obtain m where n: "n = Suc m" using Cons.prems(1) by (cases n) auto
  have len: "i < length (subscribersMap s)" using Cons.prems(2,3) by simp
  have ent: "subscribersMap s ! i = (q, b)" using Cons.prems(2,3) e by (simp add: nth_append)
  have split: "subscribersMap s = (before @ [e]) @ mid @ rest" using Cons.prems(2) by simp
  show ?case
  proof (cases "endsWith q '':*'' \<or> endsWith q '':clear''")
    case False
    have run: "Map_forEach h fuel m (Suc i) event s = Some s'"
      using Cons.prems(1) len ent False by (simp add: n)
    have "\<exists>n'. Map_forEach h fuel n' (Suc i + length mid) event
            (s\<lparr>calls := calls s @ map (\<lambda>c. (c, event)) (matching_sets s mid)\<rparr>) = Some s'"
      using run split Cons.prems(3,4) False e by (intro Cons.IH) (auto simp: matching_sets_Cons)
    then show ?thesis using False e by (simp add: matching_sets_Cons)
  next
    case True
    obtain s1 where inner: "Set_forEach h fuel b 0 event s = Some s1"
      and run: "Map_forEach h fuel m (Suc i) event s1 = Some s'"
      using Cons.prems(1) len ent True by (auto simp: n split: option.splits)
    have "\<forall>c \<in> set (Set_values (heap s ! b)). h c event = []"
      using Cons.prems(4) True e by (simp add: matching_sets_Cons)
    with inner have s1: "s1 = s\<lparr>calls := calls s @ map (\<lambda>c. (c, event)) (Set_values (heap s ! b))\<rparr>"
      by (rule Set_forEach_silent)
    have "\<exists>n'. Map_forEach h fuel n' (Suc i + length mid) event
            (s1\<lparr>calls := calls s1 @ map (\<lambda>c. (c, event)) (matching_sets s1 mid)\<rparr>) = Some s'"
      using run split Cons.prems(3,4) True e unfolding s1
      by (intro Cons.IH) (auto simp: matching_sets_Cons)
    then show ?thesis using True e unfolding s1 by (simp add: matching_sets_Cons)
  qed
qed

lemma filter_split:
  "filter P xs = ys @ y # zs \<Longrightarrow>
   \<exists>us vs. xs = us @ y # vs \<and> filter P us = ys \<and> filter P vs = zs \<and> P y"
proof (induction xs arbitrary: ys)
  case Nil
  then show ?case by simp
next
  case (Cons x xs)
  show ?case
  proof (cases "P x")
    case False
    with Cons.prems have "filter P xs = ys @ y # zs" by simp
    from Cons.IH[OF this] obtain us vs where
      "xs = us @ y # vs" "filter P us = ys" "filter P vs = zs" "P y" by blast
    with False have "x # xs = (x # us) @ y # vs \<and> filter P (x # us) = ys \<and> filter P vs = zs \<and> P y"
      by simp
    then show ?thesis by blast
  next
    case True
    show ?thesis
    proof (cases ys)
      case Nil
      with Cons.prems True have "x = y" "filter P xs = zs" by simp_all
      with True have "x # xs = [] @ y # xs \<and> filter P [] = ys \<and> filter P xs = zs \<and> P y"
        using Nil by simp
      then show ?thesis by blast
    next
      case (Cons y' ys')
      with Cons.prems True have "x = y'" and "filter P xs = ys' @ y # zs"
        using \<open>filter P (x # xs) = ys @ y # zs\<close> by simp_all
      from Cons.IH[OF this(2)] obtain us vs where
        "xs = us @ y # vs" "filter P us = ys'" "filter P vs = zs" "P y" by blast
      with True \<open>x = y'\<close> Cons
      have "x # xs = (x # us) @ y # vs \<and> filter P (x # us) = ys \<and> filter P vs = zs \<and> P y"
        by simp
      then show ?thesis by blast
    qed
  qed
qed

lemma matching_sets_subscribers:
  assumes "distinct (map fst (subscribersMap s))" and "set m \<subseteq> set (subscribersMap s)"
  shows "matching_sets s m =
     concat (map (subscribers s)
       (filter (\<lambda>p. endsWith p '':*'' \<or> endsWith p '':clear'') (map fst m)))"
  using assms(2)
proof (induction m)
  case Nil
  then show ?case by (simp add: matching_sets_def)
next
  case (Cons x m)
  obtain p a where x: "x = (p, a)" by (cases x)
  have "map_of (subscribersMap s) p = Some a"
    using Cons.prems x assms(1) by simp
  then have "subscribers s p = Set_values (heap s ! a)"
    by (simp add: subscribers_def Map_get_def)
  then show ?case using Cons x by (simp add: matching_sets_Cons)
qed

lemma silent_iff: "silent h event cs \<longleftrightarrow> (\<forall>c \<in> set cs. h c event = [])"
  by (simp add: silent_def list_all_iff)

lemma Set_forEach_reach:
  assumes "Set_forEach h n a 0 event s = Some t"
    and "heap s ! a = pre @ Some c1 # post"
    and "\<forall>c \<in> set (Set_values pre). h c event = []"
  shows "\<exists>n'. Set_forEach h n' a (Suc (length pre)) event
           (invoke h c1 event (s\<lparr>calls := calls s @ map (\<lambda>c. (c, event)) (Set_values pre)\<rparr>)) = Some t"
proof -
  let ?s = "s\<lparr>calls := calls s @ map (\<lambda>c. (c, event)) (Set_values pre)\<rparr>"
  have "heap s ! a = [] @ pre @ (Some c1 # post)" using assms(2) by simp
  from Set_forEach_prefix[OF assms(1) this _ assms(3)]
  obtain n' where run: "Set_forEach h n' a (length pre) event ?s = Some t" by auto
  then obtain m where n': "n' = Suc m" by (cases n') auto
  have "heap ?s ! a ! length pre = Some c1" and "length pre < length (heap ?s ! a)"
    using assms(2) by simp_all
  with run have "Set_forEach h m a (Suc (length pre)) event (invoke h c1 event ?s) = Some t"
    by (simp add: n')
  then show ?thesis by blast
qed

lemma get_forEach_reach:
  assumes "get_forEach h fuel p event s = Some t"
    and "Map_get (subscribersMap s) p = Some a"
    and "heap s ! a = pre @ Some c1 # post"
    and "\<forall>c \<in> set (Set_values pre). h c event = []"
  shows "\<exists>n'. Set_forEach h n' a (Suc (length pre)) event
           (invoke h c1 event (s\<lparr>calls := calls s @ map (\<lambda>c. (c, event)) (Set_values pre)\<rparr>)) = Some t"
proof -
  from assms(1,2) have "Set_forEach h fuel a 0 event s = Some t" by (simp add: get_forEach_def)
  then show ?thesis using assms(3,4) by (rule Set_forEach_reach)
qed

lemma dispatch_phases_set_delete:
  assumes run: "notify h fuel event st = Some st'"
    and nc: "ev_type event \<noteq> clear_action"
    and lk: "lookups st event = lpre @ p # lpost"
    and mg: "Map_get (subscribersMap st) p = Some a"
    and hp: "heap st ! a = pre @ Some c1 # post"
    and sil: "silent h event (concat (map (subscribers st) lpre) @ Set_values pre)"
  shows "\<exists>n s1. Set_forEach h n a (Suc (length pre)) event
           (invoke h c1 event
              (st\<lparr>calls := calls st @ map (\<lambda>c. (c, event))
                 (concat (map (subscribers st) lpre) @ Set_values pre)\<rparr>)) = Some s1
      \<and> (\<forall>P. (\<forall>s q cb. P s \<and> cb \<in> set (subscribers s q) \<longrightarrow> P (invoke h cb event s)) \<and> P s1
             \<longrightarrow> P st')"
proof -
  let ?p1 = "key_text (ev_key event) @ '':'' @ action_name (ev_type event)"
  let ?p2 = "''*:'' @ action_name (ev_type event)"
  let ?p3 = "key_text (ev_key event) @ '':*''"
  from run nc obtain t1 t2 where
    1: "get_forEach h fuel ?p1 event st = Some t1"
    and 2: "get_forEach h fuel ?p2 event t1 = Some t2"
    and 3: "get_forEach h fuel ?p3 event t2 = Some st'"
    by (auto simp: notify_def split: option.splits)
  have l3: "[?p1, ?p2, ?p3] = lpre @ p # lpost" using lk nc by (simp add: lookups_def)
  have spre: "\<forall>c \<in> set (Set_values pre). h c event = []" using sil by (simp add: silent_iff)
  have inv: "P t \<Longrightarrow> get_forEach h fuel q event t = Some t' \<Longrightarrow>
      (\<forall>s q cb. P s \<and> cb \<in> set (subscribers s q) \<longrightarrow> P (invoke h cb event s)) \<Longrightarrow> P t'"
    for P t t' q
    by (rule get_forEach_inv[where P = P]) blast+
  consider (a) "lpre = []" "p = ?p1" | (b) "lpre = [?p1]" "p = ?p2" | (c) "lpre = [?p1, ?p2]" "p = ?p3"
  proof (cases lpre)
    case Nil
    with l3 that(1) show ?thesis by simp
  next
    case (Cons x xs)
    show ?thesis
    proof (cases xs)
      case Nil
      with l3 Cons that(2) show ?thesis by simp
    next
      case c2: (Cons y ys)
      with l3 Cons have "ys = []" by (cases ys) auto
      with l3 Cons c2 that(3) show ?thesis by simp
    qed
  qed
  then show ?thesis
  proof cases
    case a
    from get_forEach_reach[OF 1[folded a(2)] mg hp spre]
    obtain n where "Set_forEach h n a (Suc (length pre)) event
           (invoke h c1 event (st\<lparr>calls := calls st @ map (\<lambda>c. (c, event)) (Set_values pre)\<rparr>)) = Some t1"
      by blast
    moreover have "\<forall>P. (\<forall>s q cb. P s \<and> cb \<in> set (subscribers s q) \<longrightarrow> P (invoke h cb event s)) \<and> P t1
             \<longrightarrow> P st'"
      using inv[OF _ 2] inv[OF _ 3] by blast
    ultimately show ?thesis using a by auto
  next
    case b
    have s1: "\<forall>c \<in> set (subscribers st ?p1). h c event = []" using sil b by (simp add: silent_iff)
    have t1: "t1 = st\<lparr>calls := calls st @ map (\<lambda>c. (c, event)) (subscribers st ?p1)\<rparr>"
      using 1 s1 by (rule get_forEach_silent)
    have mg1: "Map_get (subscribersMap t1) p = Some a" and hp1: "heap t1 ! a = pre @ Some c1 # post"
      using mg hp by (simp_all add: t1)
    from get_forEach_reach[OF 2[folded b(2)] mg1 hp1 spre]
    obtain n where "Set_forEach h n a (Suc (length pre)) event
           (invoke h c1 event (t1\<lparr>calls := calls t1 @ map (\<lambda>c. (c, event)) (Set_values pre)\<rparr>)) = Some t2"
      by blast
    moreover have "\<forall>P. (\<forall>s q cb. P s \<and> cb \<in> set (subscribers s q) \<longrightarrow> P (invoke h cb event s)) \<and> P t2
             \<longrightarrow> P st'"
      using inv[OF _ 3] by blast
    ultimately show ?thesis using b by (auto simp: t1)
  next
    case c
    have s1: "\<forall>c \<in> set (subscribers st ?p1). h c event = []"
      and s2: "\<forall>c \<in> set (subscribers st ?p2). h c event = []"
      using sil c by (simp_all add: silent_iff)
    have t1: "t1 = st\<lparr>calls := calls st @ map (\<lambda>c. (c, event)) (subscribers st ?p1)\<rparr>"
      using 1 s1 by (rule get_forEach_silent)
    have s2': "\<forall>c \<in> set (subscribers t1 ?p2). h c event = []" using s2 by (simp add: t1)
    have t2: "t2 = t1\<lparr>calls := calls t1 @ map (\<lambda>c. (c, event)) (subscribers t1 ?p2)\<rparr>"
      using 2 s2' by (rule get_forEach_silent)
    have mg2: "Map_get (subscribersMap t2) p = Some a" and hp2: "heap t2 ! a = pre @ Some c1 # post"
      using mg hp by (simp_all add: t1 t2)
    from get_forEach_reach[OF 3[folded c(2)] mg2 hp2 spre]
    obtain n where "Set_forEach h n a (Suc (length pre)) event
           (invoke h c1 event (t2\<lparr>calls := calls t2 @ map (\<lambda>c. (c, event)) (Set_values pre)\<rparr>)) = Some st'"
      by blast
    then show ?thesis using c by (auto simp: t1 t2)
  qed
qed

lemma dispatch_phases_clear:
  assumes run: "notify h fuel event st = Some st'"
    and cl: "ev_type event = clear_action"
    and wf: "wf st"
    and lk: "lookups st event = lpre @ p # lpost"
    and mg: "Map_get (subscribersMap st) p = Some a"
    and hp: "heap st ! a = pre @ Some c1 # post"
    and sil: "silent h event (concat (map (subscribers st) lpre) @ Set_values pre)"
  shows "\<exists>n s1. Set_forEach h n a (Suc (length pre)) event
           (invoke h c1 event
              (st\<lparr>calls := calls st @ map (\<lambda>c. (c, event))
                 (concat (map (subscribers st) lpre) @ Set_values pre)\<rparr>)) = Some s1
      \<and> (\<forall>P. (\<forall>s. P s \<longrightarrow> wf s) \<and>
              (\<forall>s q cb. P s \<and> cb \<in> set (subscribers s q) \<longrightarrow> P (invoke h cb event s)) \<and> P s1
             \<longrightarrow> P st')"
proof -
  let ?m = "subscribersMap st"
  let ?match = "\<lambda>p. endsWith p '':*'' \<or> endsWith p '':clear''"
  have run': "Map_forEach h fuel fuel 0 event st = Some st'" using run cl by (simp add: notify_def)
  have "filter ?match (map fst ?m) = lpre @ p # lpost"
    using lk cl by (simp add: lookups_def clear_patterns_def)
  from filter_split[OF this] obtain us vs where
    us: "map fst ?m = us @ p # vs" and fl: "filter ?match us = lpre" and mp: "?match p" by blast
  from us obtain mpre mrest where m1: "?m = mpre @ mrest" and u1: "us = map fst mpre"
    and r1: "p # vs = map fst mrest"
    by (auto simp: map_eq_append_conv)
  from r1 obtain x mpost where m2: "mrest = x # mpost" and x: "fst x = p"
    by (cases mrest) auto
  obtain b where xb: "x = (p, b)" using x by (cases x) auto
  have dist: "distinct (map fst ?m)" using wf by (simp add: wf_def)
  have "(p, b) \<in> set ?m" using m1 m2 xb by simp
  with dist have "map_of ?m p = Some b" by simp
  with mg have ba: "b = a" by (simp add: Map_get_def)
  have split: "?m = [] @ mpre @ ((p, a) # mpost)" using m1 m2 xb ba by simp
  have ms: "matching_sets st mpre = concat (map (subscribers st) lpre)"
    using matching_sets_subscribers[OF dist, of mpre] m1 fl u1 by simp
  have s0: "\<forall>c \<in> set (matching_sets st mpre). h c event = []"
    using sil by (simp add: silent_iff ms)
  have spre: "\<forall>c \<in> set (Set_values pre). h c event = []" using sil by (simp add: silent_iff)
  let ?sA = "st\<lparr>calls := calls st @ map (\<lambda>c. (c, event)) (matching_sets st mpre)\<rparr>"
  from Map_forEach_prefix[OF run' split _ s0]
  obtain n' where mrun: "Map_forEach h fuel n' (length mpre) event ?sA = Some st'" by auto
  then obtain k where n': "n' = Suc k" by (cases n') auto
  have ent: "subscribersMap ?sA ! length mpre = (p, a)" and len: "length mpre < length (subscribersMap ?sA)"
    using split by (simp_all add: nth_append)
  from mrun ent len mp obtain t where
    inner: "Set_forEach h fuel a 0 event ?sA = Some t"
    and rest: "Map_forEach h fuel k (Suc (length mpre)) event t = Some st'"
    by (auto simp: n' split: option.splits)
  have hpA: "heap ?sA ! a = pre @ Some c1 # post" using hp by simp
  from Set_forEach_reach[OF inner hpA spre]
  obtain n where "Set_forEach h n a (Suc (length pre)) event
           (invoke h c1 event (?sA\<lparr>calls := calls ?sA @ map (\<lambda>c. (c, event)) (Set_values pre)\<rparr>)) = Some t"
    by blast
  then have "Set_forEach h n a (Suc (length pre)) event
           (invoke h c1 event
              (st\<lparr>calls := calls st @ map (\<lambda>c. (c, event))
                 (concat (map (subscribers st) lpre) @ Set_values pre)\<rparr>)) = Some t"
    by (simp add: ms)
  moreover have "\<forall>P. (\<forall>s. P s \<longrightarrow> wf s) \<and>
              (\<forall>s q cb. P s \<and> cb \<in> set (subscribers s q) \<longrightarrow> P (invoke h cb event s)) \<and> P t
             \<longrightarrow> P st'"
  proof (intro allI impI)
    fix P :: "Storage \<Rightarrow> bool"
    assume A: "(\<forall>s. P s \<longrightarrow> wf s) \<and>
              (\<forall>s q cb. P s \<and> cb \<in> set (subscribers s q) \<longrightarrow> P (invoke h cb event s)) \<and> P t"
    show "P st'"
      by (rule Map_forEach_inv[where P = P, OF rest]) (use A in blast)+
  qed
  ultimately show ?thesis by blast
qed

lemma dispatch_phases:
  assumes run: "notify h fuel event st = Some st'"
    and wf: "wf st"
    and lk: "lookups st event = lpre @ p # lpost"
    and mg: "Map_get (subscribersMap st) p = Some a"
    and hp: "heap st ! a = pre @ Some c1 # post"
    and sil: "silent h event (concat (map (subscribers st) lpre) @ Set_values pre)"
  shows "\<exists>n s1. Set_forEach h n a (Suc (length pre)) event
           (invoke h c1 event
              (st\<lparr>calls := calls st @ map (\<lambda>c. (c, event))
                 (concat (map (subscribers st) lpre) @ Set_values pre)\<rparr>)) = Some s1
      \<and> (\<forall>P. (\<forall>s. P s \<longrightarrow> wf s) \<and>
              (\<forall>s q cb. P s \<and> cb \<in> set (subscribers s q) \<longrightarrow> P (invoke h cb event s)) \<and> P s1
             \<longrightarrow> P st')"
proof (cases "ev_type event = clear_action")
  case True
  then show ?thesis using dispatch_phases_clear[OF run _ wf lk mg hp sil] by blast
next
  case False
  from dispatch_phases_set_delete[OF run False lk mg hp sil]
  obtain n s1 where 1: "Set_forEach h n a (Suc (length pre)) event
           (invoke h c1 event
              (st\<lparr>calls := calls st @ map (\<lambda>c. (c, event))
                 (concat (map (subscribers st) lpre) @ Set_values pre)\<rparr>)) = Some s1"
    and 2: "\<forall>P. (\<forall>s q cb. P s \<and> cb \<in> set (subscribers s q) \<longrightarrow> P (invoke h cb event s)) \<and> P s1
             \<longrightarrow> P st'"
    by blast
  from 2 have "\<forall>P. (\<forall>s. P s \<longrightarrow> wf s) \<and>
              (\<forall>s q cb. P s \<and> cb \<in> set (subscribers s q) \<longrightarrow> P (invoke h cb event s)) \<and> P s1
             \<longrightarrow> P st'"
    by blast
  with 1 show ?thesis by blast
qed

subsection \<open>A callback that is unsubscribed before it is reached\<close>

lemma never_subscribes_calls:
  "never_subscribes h event c \<Longrightarrow> x \<in> set (h cb event) \<Longrightarrow> \<not> adds x c"
  by (auto simp: never_subscribes_def list_ex_iff)

lemma never_unsubscribes_calls:
  "never_unsubscribes h event c \<Longrightarrow> x \<in> set (h cb event) \<Longrightarrow> \<not> removes x c"
  by (auto simp: never_unsubscribes_def list_ex_iff)

lemma absent_foldl_do_call:
  assumes "wf s" and "\<forall>x \<in> set xs. \<not> adds x c" and "\<forall>q. c \<notin> set (subscribers s q)"
  shows "wf (foldl do_call s xs) \<and> (\<forall>q. c \<notin> set (subscribers (foldl do_call s xs) q))"
  using assms
proof (induction xs arbitrary: s)
  case Nil
  then show ?case by simp
next
  case (Cons x xs)
  have "wf (do_call s x)" using Cons.prems(1) by (rule wf_do_call)
  moreover have "\<forall>q. c \<notin> set (subscribers (do_call s x) q)"
    using subscribers_do_call_subset[OF Cons.prems(1), of x c] Cons.prems(2,3) by auto
  ultimately show ?case using Cons.IH[of "do_call s x"] Cons.prems(2) by simp
qed

lemma handler_unsubscribes:
  assumes "wf s" and "Map_get (subscribersMap s) p = Some a"
    and "\<forall>q. q \<noteq> p \<longrightarrow> c \<notin> set (subscribers s q)"
    and "\<forall>x \<in> set xs. \<not> adds x c"
    and "RemoveListener p c \<in> set xs \<or> CallUnsubscribe (a, c) \<in> set xs"
  shows "wf (foldl do_call s xs) \<and> (\<forall>q. c \<notin> set (subscribers (foldl do_call s xs) q))"
  using assms
proof (induction xs arbitrary: s)
  case Nil
  then show ?case by simp
next
  case (Cons x xs)
  have w: "wf (do_call s x)" using Cons.prems(1) by (rule wf_do_call)
  show ?case
  proof (cases "x = RemoveListener p c \<or> x = CallUnsubscribe (a, c)")
    case True
    have "do_call s x = unsubscribe (a, c) s"
      using True Cons.prems(2) by (auto simp: removeEventListener_unsubscribe)
    then have "\<forall>q. c \<notin> set (subscribers (do_call s x) q)"
      using subscribers_unsubscribe[OF Cons.prems(1,2), of c] Cons.prems(3) by simp
    with w show ?thesis
      using absent_foldl_do_call[of "do_call s x" xs c] Cons.prems(4) by simp
  next
    case False
    have m: "Map_get (subscribersMap (do_call s x)) p = Some a"
      using Cons.prems(2) by (rule Map_get_do_call)
    have o: "\<forall>q. q \<noteq> p \<longrightarrow> c \<notin> set (subscribers (do_call s x) q)"
      using subscribers_do_call_subset[OF Cons.prems(1), of x c] Cons.prems(3,4) by auto
    have r: "RemoveListener p c \<in> set xs \<or> CallUnsubscribe (a, c) \<in> set xs"
      using Cons.prems(5) False by auto
    show ?thesis using Cons.IH[OF w m o _ r] Cons.prems(4) by simp
  qed
qed

lemma invoked_append:
  "calls st' = calls st @ new \<Longrightarrow> invoked st st' = map fst new"
  by (simp add: invoked_def)

lemma unsubscribed_not_invoked:
  assumes run: "notify h fuel event st = Some st'"
    and wf: "wf st"
    and lk: "lookups st event = lpre @ p # lpost"
    and mg: "Map_get (subscribersMap st) p = Some a"
    and hp: "heap st ! a = pre @ Some c1 # post"
    and sil: "silent h event (concat (map (subscribers st) lpre) @ Set_values pre)"
    and c2: "c2 \<in> set (Set_values post)"
    and rm: "RemoveListener p c2 \<in> set (h c1 event) \<or> CallUnsubscribe (a, c2) \<in> set (h c1 event)"
    and ns: "never_subscribes h event c2"
    and only: "\<forall>q. q \<noteq> p \<longrightarrow> c2 \<notin> set (subscribers st q)"
  shows "c2 \<in> set (matched st event) \<and> c2 \<notin> set (invoked st st')"
proof
  have sp: "subscribers st p = Set_values pre @ c1 # Set_values post"
    using mg hp by (simp add: subscribers_def Set_values_append)
  then have "c2 \<in> set (subscribers st p)" using c2 by simp
  moreover have "p \<in> set (lookups st event)" using lk by simp
  ultimately show "c2 \<in> set (matched st event)" by (auto simp: matched_def)
next
  let ?A = "concat (map (subscribers st) lpre) @ Set_values pre"
  let ?sA = "st\<lparr>calls := calls st @ map (\<lambda>c. (c, event)) ?A\<rparr>"
  let ?P = "\<lambda>s. wf s \<and> (\<forall>q. c2 \<notin> set (subscribers s q)) \<and>
              (\<exists>new. calls s = calls st @ new \<and> c2 \<notin> fst ` set new)"
  have sp: "subscribers st p = Set_values pre @ c1 # Set_values post"
    using mg hp by (simp add: subscribers_def Set_values_append)
  have "distinct (subscribers st p)" using wf by (rule subscribers_distinct)
  with sp c2 have npre: "c2 \<notin> set (Set_values pre)" and ne: "c2 \<noteq> c1" by auto
  have c1loud: "h c1 event \<noteq> []" using rm by auto
  have nlpre: "c2 \<notin> set (concat (map (subscribers st) lpre))"
  proof
    assume "c2 \<in> set (concat (map (subscribers st) lpre))"
    then obtain q where q: "q \<in> set lpre" and "c2 \<in> set (subscribers st q)" by auto
    with only have "q = p" by blast
    with q have "p \<in> set lpre" by simp
    moreover have "c1 \<in> set (subscribers st p)" using sp by simp
    ultimately have "c1 \<in> set (concat (map (subscribers st) lpre))" by auto
    with sil have "h c1 event = []" by (simp add: silent_iff)
    with c1loud show False by simp
  qed
  have nA: "c2 \<notin> set ?A" using npre nlpre by simp
  have noadd: "\<forall>x \<in> set (h cb event). \<not> adds x c2" for cb
    using never_subscribes_calls[OF ns] by blast
  have step: "?P (invoke h cb event s)" if "?P s" and "cb \<in> set (subscribers s q)" for s q cb
  proof -
    from that have cb: "cb \<noteq> c2" by auto
    let ?s = "s\<lparr>calls := calls s @ [(cb, event)]\<rparr>"
    have "wf ?s" and "\<forall>q. c2 \<notin> set (subscribers ?s q)" using that(1) by simp_all
    from absent_foldl_do_call[OF this(1) noadd this(2)]
    have "wf (invoke h cb event s) \<and> (\<forall>q. c2 \<notin> set (subscribers (invoke h cb event s) q))"
      by (simp add: invoke_def)
    moreover from that(1) obtain new where "calls s = calls st @ new" "c2 \<notin> fst ` set new" by blast
    then have "calls (invoke h cb event s) = calls st @ (new @ [(cb, event)])
        \<and> c2 \<notin> fst ` set (new @ [(cb, event)])"
      using cb by auto
    ultimately show ?thesis by blast
  qed
  have P0: "?P (invoke h c1 event ?sA)"
  proof -
    let ?s = "?sA\<lparr>calls := calls ?sA @ [(c1, event)]\<rparr>"
    have "wf ?s" and "Map_get (subscribersMap ?s) p = Some a"
      and "\<forall>q. q \<noteq> p \<longrightarrow> c2 \<notin> set (subscribers ?s q)"
      using wf mg only by simp_all
    from handler_unsubscribes[OF this noadd rm]
    have "wf (invoke h c1 event ?sA) \<and> (\<forall>q. c2 \<notin> set (subscribers (invoke h c1 event ?sA) q))"
      by (simp add: invoke_def)
    moreover have "calls (invoke h c1 event ?sA) = calls st @ (map (\<lambda>c. (c, event)) ?A @ [(c1, event)])
        \<and> c2 \<notin> fst ` set (map (\<lambda>c. (c, event)) ?A @ [(c1, event)])"
      using nA ne by (auto simp: image_iff)
    ultimately show ?thesis by blast
  qed
  from dispatch_phases[OF run wf lk mg hp sil] obtain n s1 where
    loop: "Set_forEach h n a (Suc (length pre)) event (invoke h c1 event ?sA) = Some s1"
    and rest: "\<forall>P. (\<forall>s. P s \<longrightarrow> wf s) \<and>
              (\<forall>s q cb. P s \<and> cb \<in> set (subscribers s q) \<longrightarrow> P (invoke h cb event s)) \<and> P s1
             \<longrightarrow> P st'"
    by blast
  have "?P s1 \<and> Map_get (subscribersMap s1) p = Some a"
  proof (rule Set_forEach_inv[where P = "\<lambda>s. ?P s \<and> Map_get (subscribersMap s) p = Some a", OF loop])
    show "?P (invoke h c1 event ?sA) \<and> Map_get (subscribersMap (invoke h c1 event ?sA)) p = Some a"
      using P0 mg by (simp add: Map_get_invoke)
  next
    fix s cb
    assume A: "?P s \<and> Map_get (subscribersMap s) p = Some a" and B: "Some cb \<in> set (heap s ! a)"
    then have "cb \<in> set (subscribers s p)" by (simp add: subscribers_mem)
    with A show "?P (invoke h cb event s) \<and> Map_get (subscribersMap (invoke h cb event s)) p = Some a"
      using step[of s cb p] by (simp add: Map_get_invoke)
  qed
  then have "?P s1" by simp
  have "?P st'"
    using rest[rule_format, of ?P] step \<open>?P s1\<close> by blast
  then obtain new where "calls st' = calls st @ new" "c2 \<notin> fst ` set new" by blast
  then show "c2 \<notin> set (invoked st st')" by (simp add: invoked_append)
qed

subsection \<open>A callback that is subscribed while its set is iterated\<close>

lemma heap_do_call_cases:
  assumes "a < length (heap s)"
  shows "a < length (heap (do_call s x)) \<and>
     (heap (do_call s x) ! a = heap s ! a
      \<or> (\<exists>r c'. x = AddListener r c' \<and> Map_get (subscribersMap s) r = Some a \<and>
            heap (do_call s x) ! a = Set_add (heap s ! a) c')
      \<or> (\<exists>c'. removes x c' \<and> heap (do_call s x) ! a = Set_delete (heap s ! a) c'))"
proof (cases x)
  case (AddListener r c')
  show ?thesis
  proof (cases "Map_get (subscribersMap s) r")
    case None
    then show ?thesis using AddListener assms
      by (simp add: addEventListener_def nth_append)
  next
    case (Some b)
    then show ?thesis using AddListener assms
      by (cases "b = a") (simp_all add: addEventListener_def)
  qed
next
  case (RemoveListener r c')
  show ?thesis
  proof (cases "Map_get (subscribersMap s) r")
    case None
    then show ?thesis using RemoveListener assms by (simp add: removeEventListener_def)
  next
    case (Some b)
    then show ?thesis using RemoveListener assms
      by (cases "b = a") (auto simp: removeEventListener_def)
  qed
next
  case (CallUnsubscribe u)
  obtain b c' where u: "u = (b, c')" by (cases u)
  show ?thesis using CallUnsubscribe u assms
    by (cases "b = a") (auto simp: unsubscribe_def)
qed

lemma entry_kept_do_call:
  assumes "a < length (heap s)" and "j < length (heap s ! a)" and "heap s ! a ! j = Some c"
    and "\<not> removes x c"
  shows "a < length (heap (do_call s x)) \<and> j < length (heap (do_call s x) ! a) \<and>
         heap (do_call s x) ! a ! j = Some c"
proof -
  from heap_do_call_cases[OF assms(1), of x]
  have len: "a < length (heap (do_call s x))" and
    cases: "heap (do_call s x) ! a = heap s ! a
      \<or> (\<exists>c'. heap (do_call s x) ! a = Set_add (heap s ! a) c')
      \<or> (\<exists>c'. removes x c' \<and> heap (do_call s x) ! a = Set_delete (heap s ! a) c')"
    by blast+
  from cases show ?thesis
  proof (elim disjE exE conjE)
    assume "heap (do_call s x) ! a = heap s ! a"
    with len assms show ?thesis by simp
  next
    fix c' assume "heap (do_call s x) ! a = Set_add (heap s ! a) c'"
    with len assms show ?thesis by (simp add: Set_add_def nth_append)
  next
    fix c' assume r: "removes x c'" and "heap (do_call s x) ! a = Set_delete (heap s ! a) c'"
    moreover from r assms(4) have "c' \<noteq> c" by auto
    ultimately show ?thesis using len assms by (simp add: Set_delete_def)
  qed
qed

lemma entry_kept_foldl:
  assumes "a < length (heap s)" and "j < length (heap s ! a)" and "heap s ! a ! j = Some c"
    and "\<forall>x \<in> set xs. \<not> removes x c"
  shows "a < length (heap (foldl do_call s xs)) \<and> j < length (heap (foldl do_call s xs) ! a) \<and>
         heap (foldl do_call s xs) ! a ! j = Some c"
  using assms
proof (induction xs arbitrary: s)
  case Nil
  then show ?case by simp
next
  case (Cons x xs)
  from entry_kept_do_call[OF Cons.prems(1,2,3), of x] Cons.prems(4)
  have "a < length (heap (do_call s x)) \<and> j < length (heap (do_call s x) ! a) \<and>
         heap (do_call s x) ! a ! j = Some c" by simp
  then show ?case using Cons.IH[of "do_call s x"] Cons.prems(4) by simp
qed

lemma entry_kept_invoke:
  assumes "a < length (heap s)" and "j < length (heap s ! a)" and "heap s ! a ! j = Some c"
    and "never_unsubscribes h event c"
  shows "a < length (heap (invoke h cb event s)) \<and> j < length (heap (invoke h cb event s) ! a) \<and>
         heap (invoke h cb event s) ! a ! j = Some c"
  unfolding invoke_def
  by (rule entry_kept_foldl) (use assms never_unsubscribes_calls in auto)

lemma wf_address_unique:
  assumes "wf s" and "Map_get (subscribersMap s) p = Some a" and "Map_get (subscribersMap s) r = Some a"
  shows "r = p"
proof -
  have pa: "(p, a) \<in> set (subscribersMap s)" and ra: "(r, a) \<in> set (subscribersMap s)"
    using assms(2,3) by (auto simp: Map_get_def dest: map_of_SomeD)
  have "inj_on snd (set (subscribersMap s))" using assms(1) by (simp add: wf_def distinct_map)
  from inj_onD[OF this _ ra pa] show ?thesis by simp
qed

lemma absent_kept_do_call:
  assumes "wf s" and "Map_get (subscribersMap s) p = Some a"
    and "Some c \<notin> set (heap s ! a)" and "L \<le> length (heap s ! a)" and "x \<noteq> AddListener p c"
  shows "Some c \<notin> set (heap (do_call s x) ! a) \<and> L \<le> length (heap (do_call s x) ! a)"
proof -
  have a: "a < length (heap s)" using assms(1,2) by (rule wf_address)
  from heap_do_call_cases[OF a, of x]
  have "heap (do_call s x) ! a = heap s ! a
      \<or> (\<exists>r c'. x = AddListener r c' \<and> Map_get (subscribersMap s) r = Some a \<and>
            heap (do_call s x) ! a = Set_add (heap s ! a) c')
      \<or> (\<exists>c'. removes x c' \<and> heap (do_call s x) ! a = Set_delete (heap s ! a) c')"
    by blast
  then show ?thesis
  proof (elim disjE exE conjE)
    assume "heap (do_call s x) ! a = heap s ! a"
    with assms show ?thesis by simp
  next
    fix r c' assume x: "x = AddListener r c'" and "Map_get (subscribersMap s) r = Some a"
      and hp: "heap (do_call s x) ! a = Set_add (heap s ! a) c'"
    then have "r = p" using wf_address_unique[OF assms(1,2)] by blast
    with x assms(5) have "c' \<noteq> c" by auto
    with hp assms(3,4) show ?thesis by (auto simp: Set_add_def)
  next
    fix c' assume "heap (do_call s x) ! a = Set_delete (heap s ! a) c'"
    with assms(3,4) show ?thesis by (auto simp: Set_delete_def)
  qed
qed

lemma handler_subscribes:
  assumes "wf s" and "Map_get (subscribersMap s) p = Some a"
    and "Some c \<notin> set (heap s ! a)" and "L \<le> length (heap s ! a)"
    and "\<forall>x \<in> set xs. \<not> removes x c" and "AddListener p c \<in> set xs"
  shows "\<exists>j. L \<le> j \<and> a < length (heap (foldl do_call s xs)) \<and>
             j < length (heap (foldl do_call s xs) ! a) \<and>
             heap (foldl do_call s xs) ! a ! j = Some c"
  using assms
proof (induction xs arbitrary: s)
  case Nil
  then show ?case by simp
next
  case (Cons x xs)
  have a: "a < length (heap s)" using Cons.prems(1,2) by (rule wf_address)
  show ?case
  proof (cases "x = AddListener p c")
    case True
    have hp: "heap (do_call s x) = (heap s)[a := heap s ! a @ [Some c]]"
      using True Cons.prems(2,3)
      by (simp add: addEventListener_def Map_get_def Map_set_present Set_add_def)
    let ?j = "length (heap s ! a)"
    have "a < length (heap (do_call s x))" and "?j < length (heap (do_call s x) ! a)"
      and "heap (do_call s x) ! a ! ?j = Some c"
      using a by (simp_all add: hp)
    from entry_kept_foldl[OF this, of xs] Cons.prems(5)
    have "a < length (heap (foldl do_call s (x # xs))) \<and>
          ?j < length (heap (foldl do_call s (x # xs)) ! a) \<and>
          heap (foldl do_call s (x # xs)) ! a ! ?j = Some c" by simp
    with Cons.prems(4) show ?thesis by blast
  next
    case False
    have w: "wf (do_call s x)" using Cons.prems(1) by (rule wf_do_call)
    have m: "Map_get (subscribersMap (do_call s x)) p = Some a"
      using Cons.prems(2) by (rule Map_get_do_call)
    from absent_kept_do_call[OF Cons.prems(1,2,3,4) False]
    have q: "Some c \<notin> set (heap (do_call s x) ! a)" and l: "L \<le> length (heap (do_call s x) ! a)"
      by simp_all
    have r: "AddListener p c \<in> set xs" using Cons.prems(6) False by auto
    show ?thesis using Cons.IH[OF w m q l _ r] Cons.prems(5) by simp
  qed
qed

lemma Set_forEach_calls:
  assumes "Set_forEach h n a i event s = Some s'"
  shows "\<exists>new. calls s' = calls s @ new"
  by (rule Set_forEach_inv[where P = "\<lambda>t. \<exists>new. calls t = calls s @ new", OF assms]) auto

lemma Set_forEach_visits:
  assumes "Set_forEach h n a i event s = Some s'"
    and "i \<le> j" and "a < length (heap s)" and "j < length (heap s ! a)"
    and "heap s ! a ! j = Some c" and "never_unsubscribes h event c"
  shows "\<exists>new. calls s' = calls s @ new \<and> c \<in> fst ` set new"
  using assms(1-5)
proof (induction n arbitrary: i s)
  case 0
  then show ?case by simp
next
  case (Suc n)
  have len: "i < length (heap s ! a)" using Suc.prems(2,4) by simp
  show ?case
  proof (cases "heap s ! a ! i")
    case None
    with Suc.prems(5) have "i \<noteq> j" by auto
    with Suc.prems(2) have ij: "Suc i \<le> j" by simp
    from Suc.prems(1) len None have "Set_forEach h n a (Suc i) event s = Some s'" by simp
    from Suc.IH[OF this ij Suc.prems(3,4,5)] show ?thesis .
  next
    case (Some cb)
    let ?s = "invoke h cb event s"
    from Suc.prems(1) len Some have run: "Set_forEach h n a (Suc i) event ?s = Some s'" by simp
    show ?thesis
    proof (cases "i = j")
      case True
      with Some Suc.prems(5) have "cb = c" by simp
      moreover from Set_forEach_calls[OF run] obtain new where "calls s' = calls ?s @ new" by blast
      ultimately have "calls s' = calls s @ ((c, event) # new)" by simp
      then show ?thesis by force
    next
      case False
      with Suc.prems(2) have ij: "Suc i \<le> j" by simp
      from entry_kept_invoke[OF Suc.prems(3,4,5) assms(6), of cb]
      have k: "a < length (heap ?s)" "j < length (heap ?s ! a)" "heap ?s ! a ! j = Some c"
        by simp_all
      from Suc.IH[OF run ij k] obtain new where "calls s' = calls ?s @ new" "c \<in> fst ` set new"
        by blast
      then have "calls s' = calls s @ ((cb, event) # new) \<and> c \<in> fst ` set ((cb, event) # new)"
        by simp
      then show ?thesis by blast
    qed
  qed
qed

lemma subscribed_invoked:
  assumes run: "notify h fuel event st = Some st'"
    and wf: "wf st"
    and lk: "lookups st event = lpre @ p # lpost"
    and mg: "Map_get (subscribersMap st) p = Some a"
    and hp: "heap st ! a = pre @ Some c1 # post"
    and sil: "silent h event (concat (map (subscribers st) lpre) @ Set_values pre)"
    and add: "AddListener p c3 \<in> set (h c1 event)"
    and nu: "never_unsubscribes h event c3"
    and new: "c3 \<notin> set (matched st event)"
  shows "c3 \<in> set (invoked st st')"
proof -
  let ?A = "concat (map (subscribers st) lpre) @ Set_values pre"
  let ?sQ = "st\<lparr>calls := calls st @ map (\<lambda>c. (c, event)) ?A\<rparr>"
  let ?sI = "invoke h c1 event ?sQ"
  let ?P = "\<lambda>s. wf s \<and> (\<exists>new. calls s = calls st @ new \<and> c3 \<in> fst ` set new)"
  have "p \<in> set (lookups st event)" using lk by simp
  with new have "c3 \<notin> set (subscribers st p)" by (auto simp: matched_def)
  then have absent: "Some c3 \<notin> set (heap st ! a)"
    using mg by (simp add: subscribers_def Set_values_mem)
  have norem: "\<forall>x \<in> set (h c1 event). \<not> removes x c3"
    using never_unsubscribes_calls[OF nu] by blast
  let ?sB = "?sQ\<lparr>calls := calls ?sQ @ [(c1, event)]\<rparr>"
  have "wf ?sB" and "Map_get (subscribersMap ?sB) p = Some a" and "Some c3 \<notin> set (heap ?sB ! a)"
    and "Suc (length pre) \<le> length (heap ?sB ! a)"
    using wf mg absent hp by simp_all
  from handler_subscribes[OF this norem add]
  have "\<exists>j. Suc (length pre) \<le> j \<and> a < length (heap (foldl do_call ?sB (h c1 event))) \<and>
             j < length (heap (foldl do_call ?sB (h c1 event)) ! a) \<and>
             heap (foldl do_call ?sB (h c1 event)) ! a ! j = Some c3" .
  moreover have "foldl do_call ?sB (h c1 event) = ?sI" by (simp add: invoke_def)
  ultimately obtain j where j: "Suc (length pre) \<le> j" "a < length (heap ?sI)"
    "j < length (heap ?sI ! a)" "heap ?sI ! a ! j = Some c3"
    by (simp only:) blast
  from dispatch_phases[OF run wf lk mg hp sil] obtain n s1 where
    loop: "Set_forEach h n a (Suc (length pre)) event ?sI = Some s1"
    and rest: "\<forall>P. (\<forall>s. P s \<longrightarrow> wf s) \<and>
              (\<forall>s q cb. P s \<and> cb \<in> set (subscribers s q) \<longrightarrow> P (invoke h cb event s)) \<and> P s1
             \<longrightarrow> P st'"
    by blast
  from Set_forEach_visits[OF loop j nu] obtain new where
    "calls s1 = calls ?sI @ new" "c3 \<in> fst ` set new" by blast
  then have "calls s1 = calls st @ (map (\<lambda>c. (c, event)) ?A @ (c1, event) # new)
      \<and> c3 \<in> fst ` set (map (\<lambda>c. (c, event)) ?A @ (c1, event) # new)"
    by auto
  then have c: "\<exists>new. calls s1 = calls st @ new \<and> c3 \<in> fst ` set new" by blast
  have "wf ?sI" using wf by (simp add: wf_invoke)
  with loop have "wf s1" by (rule Set_forEach_inv) (rule wf_invoke)
  with c have P1: "?P s1" by simp
  have step: "?P (invoke h cb event s)" if "?P s" for s cb
  proof -
    from that obtain new where "calls s = calls st @ new" "c3 \<in> fst ` set new" by blast
    then have "calls (invoke h cb event s) = calls st @ (new @ [(cb, event)])
        \<and> c3 \<in> fst ` set (new @ [(cb, event)])" by auto
    with that show ?thesis using wf_invoke by blast
  qed
  have "?P st'" using rest[rule_format, of ?P] step P1 by blast
  then obtain new where "calls st' = calls st @ new" "c3 \<in> fst ` set new" by blast
  then show ?thesis by (simp add: invoked_append)
qed

subsection \<open>Dispatches that return\<close>

lemma length_Map_set: "length m \<le> length (Map_set m k a)"
  by (induction m) auto

lemma length_do_call_mono:
  assumes "a < length (heap s)"
  shows "a < length (heap (do_call s x)) \<and> length (heap s ! a) \<le> length (heap (do_call s x) ! a)"
proof -
  from heap_do_call_cases[OF assms, of x]
  have len: "a < length (heap (do_call s x))" and
    cases: "heap (do_call s x) ! a = heap s ! a
      \<or> (\<exists>c'. heap (do_call s x) ! a = Set_add (heap s ! a) c')
      \<or> (\<exists>c'. heap (do_call s x) ! a = Set_delete (heap s ! a) c')"
    by blast+
  from cases have "length (heap s ! a) \<le> length (heap (do_call s x) ! a)"
    by (auto simp: Set_add_def Set_delete_def)
  with len show ?thesis by simp
qed

lemma map_length_do_call_mono:
  "length (subscribersMap s) \<le> length (subscribersMap (do_call s x))"
  by (cases x)
    (auto simp: addEventListener_def removeEventListener_def unsubscribe_def length_Map_set
      split: option.splits prod.splits)

lemma length_invoke_mono:
  assumes "a < length (heap s)"
  shows "a < length (heap (invoke h cb event s)) \<and>
         length (heap s ! a) \<le> length (heap (invoke h cb event s) ! a)"
  unfolding invoke_def
proof (rule foldl_do_call_invariant[where
      P = "\<lambda>t::Storage. a < length (heap t) \<and> length (heap s ! a) \<le> length (heap t ! a)"])
  show "a < length (heap (s\<lparr>calls := calls s @ [(cb, event)]\<rparr>)) \<and>
        length (heap s ! a) \<le> length (heap (s\<lparr>calls := calls s @ [(cb, event)]\<rparr>) ! a)"
    using assms by simp
next
  fix t :: Storage and x
  assume "a < length (heap t) \<and> length (heap s ! a) \<le> length (heap t ! a)"
  then show "a < length (heap (do_call t x)) \<and> length (heap s ! a) \<le> length (heap (do_call t x) ! a)"
    using length_do_call_mono[of a t x] by auto
qed

lemma map_length_invoke_mono:
  "length (subscribersMap s) \<le> length (subscribersMap (invoke h cb event s))"
  unfolding invoke_def
proof (rule foldl_do_call_invariant[where
      P = "\<lambda>t::Storage. length (subscribersMap s) \<le> length (subscribersMap t)"])
  show "length (subscribersMap s) \<le> length (subscribersMap (s\<lparr>calls := calls s @ [(cb, event)]\<rparr>))"
    by simp
next
  fix t :: Storage and x
  assume "length (subscribersMap s) \<le> length (subscribersMap t)"
  then show "length (subscribersMap s) \<le> length (subscribersMap (do_call t x))"
    using map_length_do_call_mono[of t x] by simp
qed

lemma Set_forEach_returns:
  assumes step: "\<And>s cb. I s \<Longrightarrow> I (invoke h cb event s)"
    and en: "\<And>s. I s \<Longrightarrow> enough fuel s \<and> wf s"
  shows "I s \<Longrightarrow> Map_get (subscribersMap s) p = Some a \<Longrightarrow> i \<le> length (heap s ! a) \<Longrightarrow>
         fuel \<le> n + i \<Longrightarrow>
         \<exists>s'. Set_forEach h n a i event s = Some s' \<and> I s' \<and>
              length (subscribersMap s) \<le> length (subscribersMap s')"
proof (induction n arbitrary: i s)
  case 0
  have "length (heap s ! a) < fuel" using en[OF 0(1)] 0(2) by (simp add: enough_lookup)
  with 0(3,4) show ?case by simp
next
  case (Suc n)
  show ?case
  proof (cases "i < length (heap s ! a)")
    case False
    with Suc.prems(1) show ?thesis by simp
  next
    case True
    show ?thesis
    proof (cases "heap s ! a ! i")
      case None
      have "\<exists>s'. Set_forEach h n a (Suc i) event s = Some s' \<and> I s' \<and>
              length (subscribersMap s) \<le> length (subscribersMap s')"
        using Suc.prems True by (intro Suc.IH) simp_all
      with True None show ?thesis by simp
    next
      case (Some cb)
      let ?s = "invoke h cb event s"
      have a: "a < length (heap s)" using en[OF Suc.prems(1)] Suc.prems(2) by (simp add: wf_address)
      have "\<exists>s'. Set_forEach h n a (Suc i) event ?s = Some s' \<and> I s' \<and>
              length (subscribersMap ?s) \<le> length (subscribersMap s')"
      proof (intro Suc.IH)
        show "I ?s" using Suc.prems(1) by (rule step)
        show "Map_get (subscribersMap ?s) p = Some a" using Suc.prems(2) by (rule Map_get_invoke)
        show "Suc i \<le> length (heap ?s ! a)"
          using True length_invoke_mono[OF a, of h cb event] by simp
        show "fuel \<le> n + Suc i" using Suc.prems(4) by simp
      qed
      then obtain s' where "Set_forEach h n a (Suc i) event ?s = Some s'" "I s'"
        "length (subscribersMap ?s) \<le> length (subscribersMap s')" by blast
      moreover have "length (subscribersMap s) \<le> length (subscribersMap ?s)"
        by (rule map_length_invoke_mono)
      ultimately show ?thesis using True Some by simp
    qed
  qed
qed

lemma get_forEach_returns:
  assumes step: "\<And>s cb. I s \<Longrightarrow> I (invoke h cb event s)"
    and en: "\<And>s. I s \<Longrightarrow> enough fuel s \<and> wf s"
    and "I s"
  shows "\<exists>s'. get_forEach h fuel q event s = Some s' \<and> I s'"
proof (cases "Map_get (subscribersMap s) q")
  case None
  with assms(3) show ?thesis by (simp add: get_forEach_def)
next
  case (Some b)
  have "\<exists>s'. Set_forEach h fuel b 0 event s = Some s' \<and> I s' \<and>
              length (subscribersMap s) \<le> length (subscribersMap s')"
    by (rule Set_forEach_returns[where I = I and p = q, OF step en assms(3) Some]) simp_all
  with Some show ?thesis by (auto simp: get_forEach_def)
qed

lemma Map_forEach_returns:
  assumes step: "\<And>s cb. I s \<Longrightarrow> I (invoke h cb event s)"
    and en: "\<And>s. I s \<Longrightarrow> enough fuel s \<and> wf s"
  shows "I s \<Longrightarrow> i \<le> length (subscribersMap s) \<Longrightarrow> fuel \<le> n + i \<Longrightarrow>
         \<exists>s'. Map_forEach h fuel n i event s = Some s' \<and> I s'"
proof (induction n arbitrary: i s)
  case 0
  have "length (subscribersMap s) < fuel" using en[OF 0(1)] by (simp add: enough_def)
  with 0(2,3) show ?case by simp
next
  case (Suc n)
  show ?case
  proof (cases "i < length (subscribersMap s)")
    case False
    with Suc.prems(1) show ?thesis by simp
  next
    case True
    obtain q b where qb: "subscribersMap s ! i = (q, b)" by (cases "subscribersMap s ! i")
    show ?thesis
    proof (cases "endsWith q '':*'' \<or> endsWith q '':clear''")
      case False
      have "\<exists>s'. Map_forEach h fuel n (Suc i) event s = Some s' \<and> I s'"
        using Suc.prems True by (intro Suc.IH) simp_all
      with True qb False show ?thesis by simp
    next
      case m: True
      have mg: "Map_get (subscribersMap s) q = Some b"
        using en[OF Suc.prems(1)] True qb by (simp add: wf_entry)
      have "\<exists>s'. Set_forEach h fuel b 0 event s = Some s' \<and> I s' \<and>
              length (subscribersMap s) \<le> length (subscribersMap s')"
        by (rule Set_forEach_returns[where I = I and p = q, OF step en Suc.prems(1) mg]) simp_all
      then obtain s1 where s1: "Set_forEach h fuel b 0 event s = Some s1" "I s1"
        "length (subscribersMap s) \<le> length (subscribersMap s1)" by blast
      have "\<exists>s'. Map_forEach h fuel n (Suc i) event s1 = Some s' \<and> I s'"
        using s1 Suc.prems True by (intro Suc.IH) simp_all
      with True qb m s1(1) show ?thesis by simp
    qed
  qed
qed

lemma notify_returns:
  assumes step: "\<And>s cb. I s \<Longrightarrow> I (invoke h cb event s)"
    and en: "\<And>s. I s \<Longrightarrow> enough fuel s \<and> wf s"
    and "I st"
  shows "\<exists>st'. notify h fuel event st = Some st' \<and> I st'"
proof (cases "ev_type event = clear_action")
  case True
  have "\<exists>s'. Map_forEach h fuel fuel 0 event st = Some s' \<and> I s'"
    by (rule Map_forEach_returns[where I = I, OF step en assms(3)]) simp_all
  with True show ?thesis by (simp add: notify_def)
next
  case False
  from get_forEach_returns[where I = I, OF step en assms(3)]
  obtain s1 where s1: "get_forEach h fuel (key_text (ev_key event) @ '':'' @ action_name (ev_type event)) event st = Some s1"
    "I s1" by blast
  from get_forEach_returns[where I = I, OF step en s1(2)]
  obtain s2 where s2: "get_forEach h fuel (''*:'' @ action_name (ev_type event)) event s1 = Some s2"
    "I s2" by blast
  from get_forEach_returns[where I = I, OF step en s2(2)]
  obtain s3 where s3: "get_forEach h fuel (key_text (ev_key event) @ '':*'') event s2 = Some s3"
    "I s3" by blast
  show ?thesis using False s1 s2 s3 by (simp add: notify_def)
qed

lemma same_shape_enough: "same_shape st s \<Longrightarrow> enough fuel st \<Longrightarrow> enough fuel s"
  by (simp add: same_shape_def enough_def)

lemma length_list_update_same:
  "length x = length (hp ! b) \<Longrightarrow> length (hp[b := x] ! a) = length (hp ! a)"
  by (cases "b < length hp"; cases "a = b") (simp_all add: list_update_beyond)

lemma same_shape_do_call:
  assumes "same_shape st s" and "\<forall>c. \<not> adds x c"
  shows "same_shape st (do_call s x)"
proof (cases x)
  case (AddListener r c')
  with assms(2) show ?thesis by auto
next
  case (RemoveListener r c')
  have "length (Set_delete (heap s ! b) c') = length (heap s ! b)" for b
    by (simp add: Set_delete_def)
  then show ?thesis using RemoveListener assms(1)
    by (auto simp: same_shape_def removeEventListener_def length_list_update_same split: option.splits)
next
  case (CallUnsubscribe u)
  have "length (Set_delete (heap s ! b) c') = length (heap s ! b)" for b c'
    by (simp add: Set_delete_def)
  then show ?thesis using CallUnsubscribe assms(1)
    by (auto simp: same_shape_def unsubscribe_def length_list_update_same split: prod.splits)
qed

lemma same_shape_invoke:
  assumes "same_shape st s" and "\<forall>c. never_subscribes h event c"
  shows "same_shape st (invoke h cb event s)"
proof -
  have "same_shape st (foldl do_call t xs)" if "same_shape st t" and "\<forall>x \<in> set xs. \<forall>c. \<not> adds x c"
    for t xs using that
  proof (induction xs arbitrary: t)
    case Nil
    then show ?case by simp
  next
    case (Cons x xs)
    then show ?case using same_shape_do_call[of st t x] by simp
  qed
  moreover have "same_shape st (s\<lparr>calls := calls s @ [(cb, event)]\<rparr>)"
    using assms(1) by (simp add: same_shape_def)
  moreover have "\<forall>x \<in> set (h cb event). \<forall>c. \<not> adds x c"
    using assms(2) never_subscribes_calls by blast
  ultimately show ?thesis by (simp add: invoke_def)
qed

lemma unsubscribing_dispatch_returns:
  assumes "wf st" and "enough fuel st" and "\<forall>c. never_subscribes h event c"
  shows "\<exists>st'. notify h fuel event st = Some st'"
proof -
  let ?I = "\<lambda>s. wf s \<and> same_shape st s"
  have "\<exists>st'. notify h fuel event st = Some st' \<and> ?I st'"
  proof (rule notify_returns[where I = ?I])
    show "?I st" using assms(1) by (simp add: same_shape_def)
  next
    fix s cb assume "?I s"
    then show "?I (invoke h cb event s)" using assms(3) by (simp add: wf_invoke same_shape_invoke)
  next
    fix s assume "?I s"
    then show "enough fuel s \<and> wf s" using assms(2) same_shape_enough by blast
  qed
  then show ?thesis by blast
qed

lemma subscribed_calls [simp]: "subscribed (s\<lparr>calls := cs\<rparr>) x = subscribed s x"
  by (cases x) simp_all

lemma pending_calls [simp]: "pending xs (s\<lparr>calls := cs\<rparr>) = pending xs s"
  by (simp add: pending_def)

lemma bounded_calls [simp]: "bounded xs fuel (s\<lparr>calls := cs\<rparr>) = bounded xs fuel s"
  by (simp add: bounded_def)

lemma subscribers_memD:
  assumes "c \<in> set (subscribers s q)"
  shows "\<exists>b. Map_get (subscribersMap s) q = Some b \<and> Some c \<in> set (heap s ! b)"
  using assms by (cases "Map_get (subscribersMap s) q") (auto simp: subscribers_def Set_values_mem)

lemma subscribed_kept:
  assumes "wf s" and "subscribed s y" and "\<forall>c. adds y c \<longrightarrow> \<not> removes x c"
  shows "subscribed (do_call s x) y"
proof (cases y)
  case (AddListener q c)
  with assms(2) have "c \<in> set (subscribers s q)" by simp
  then obtain b where b: "Map_get (subscribersMap s) q = Some b" "Some c \<in> set (heap s ! b)"
    using subscribers_memD by blast
  have nr: "\<not> removes x c" using assms(3) AddListener by simp
  have lb: "b < length (heap s)" using assms(1) b(1) by (rule wf_address)
  from heap_do_call_cases[OF lb, of x]
  have "heap (do_call s x) ! b = heap s ! b
      \<or> (\<exists>c'. heap (do_call s x) ! b = Set_add (heap s ! b) c')
      \<or> (\<exists>c'. removes x c' \<and> heap (do_call s x) ! b = Set_delete (heap s ! b) c')"
    by blast
  then have "Some c \<in> set (heap (do_call s x) ! b)"
  proof (elim disjE exE conjE)
    assume "heap (do_call s x) ! b = heap s ! b"
    with b(2) show ?thesis by simp
  next
    fix c' assume "heap (do_call s x) ! b = Set_add (heap s ! b) c'"
    with b(2) show ?thesis by (simp add: Set_add_def)
  next
    fix c' assume r: "removes x c'" and e: "heap (do_call s x) ! b = Set_delete (heap s ! b) c'"
    from r nr have "c' \<noteq> c" by auto
    with b(2) e show ?thesis by (auto simp: Set_delete_def)
  qed
  moreover have "Map_get (subscribersMap (do_call s x)) q = Some b"
    using b(1) by (rule Map_get_do_call)
  ultimately have "c \<in> set (subscribers (do_call s x) q)" by (simp add: subscribers_mem)
  with AddListener show ?thesis by simp
qed simp_all

lemma pending_le:
  assumes "wf s" and "\<forall>y \<in> set xs. \<forall>c. adds y c \<longrightarrow> \<not> removes x c"
  shows "pending xs (do_call s x) \<le> pending xs s"
  unfolding pending_def
proof (rule card_mono)
  show "finite {y \<in> set xs. \<not> subscribed s y}" by simp
  show "{y \<in> set xs. \<not> subscribed (do_call s x) y} \<subseteq> {y \<in> set xs. \<not> subscribed s y}"
    using subscribed_kept[OF assms(1), of _ x] assms(2) by blast
qed

lemma pending_less:
  assumes "wf s" and "AddListener p c \<in> set xs" and "c \<notin> set (subscribers s p)"
  shows "pending xs (do_call s (AddListener p c)) < pending xs s"
  unfolding pending_def
proof (rule psubset_card_mono)
  let ?x = "AddListener p c"
  show "finite {y \<in> set xs. \<not> subscribed s y}" by simp
  have sub: "{y \<in> set xs. \<not> subscribed (do_call s ?x) y} \<subseteq> {y \<in> set xs. \<not> subscribed s y}"
    using subscribed_kept[OF assms(1), of _ ?x] by auto
  have "subscribed (do_call s ?x) ?x"
    using subscribers_addEventListener[OF assms(1), of c p] by simp
  then have "?x \<notin> {y \<in> set xs. \<not> subscribed (do_call s ?x) y}" by simp
  moreover have "?x \<in> {y \<in> set xs. \<not> subscribed s y}" using assms(2,3) by simp
  ultimately show "{y \<in> set xs. \<not> subscribed (do_call s ?x) y} \<subset> {y \<in> set xs. \<not> subscribed s y}"
    using sub by blast
qed

lemma do_call_subscribed:
  assumes "c \<in> set (subscribers s p)"
  shows "do_call s (AddListener p c) = s"
proof -
  from subscribers_memD[OF assms] obtain b where
    b: "Map_get (subscribersMap s) p = Some b" "Some c \<in> set (heap s ! b)" by blast
  then show ?thesis
    by (simp add: addEventListener_def Set_add_def Map_get_def Map_set_present)
qed

lemma bounded_add:
  assumes "wf s" and "bounded xs fuel s" and "AddListener p c \<in> set xs"
  shows "bounded xs fuel (do_call s (AddListener p c))"
proof (cases "c \<in> set (subscribers s p)")
  case True
  then show ?thesis using assms(2) by (simp only: do_call_subscribed)
next
  case False
  let ?s = "fst (addEventListener s p c)"
  have less: "pending xs ?s < pending xs s" using pending_less[OF assms(1,3) False] by simp
  have "bounded xs fuel ?s"
  proof (cases "Map_get (subscribersMap s) p")
    case None
    then have m: "map_of (subscribersMap s) p = None" by (simp add: Map_get_def)
    have s': "?s = s\<lparr>subscribersMap := subscribersMap s @ [(p, length (heap s))],
                     heap := heap s @ [[Some c]]\<rparr>"
      using None m by (simp add: addEventListener_def Map_set_absent Set_add_def)
    have old: "length (heap ?s ! b) = length (heap s ! b)" if "(q, b) \<in> set (subscribersMap s)" for q b
    proof -
      have "b < length (heap s)" using assms(1) that by (auto simp: wf_def list_all_iff)
      then show ?thesis using s' by (simp add: nth_append)
    qed
    have new: "length (heap ?s ! length (heap s)) = 1" by (simp add: s')
    have ml: "length (subscribersMap ?s) = Suc (length (subscribersMap s))" by (simp add: s')
    have mem: "(q, b) \<in> set (subscribersMap s) \<or> (q, b) = (p, length (heap s))"
      if "(q, b) \<in> set (subscribersMap ?s)" for q b using that by (auto simp: s')
    show ?thesis
      unfolding bounded_def
    proof (intro conjI ballI)
      show "length (subscribersMap ?s) + pending xs ?s < fuel"
        using assms(2) less ml by (simp add: bounded_def)
    next
      fix e assume e: "e \<in> set (subscribersMap ?s)"
      obtain q b where qb: "e = (q, b)" by (cases e)
      have "(q, b) \<in> set (subscribersMap s) \<or> (q, b) = (p, length (heap s))"
        using mem[of q b] e qb by simp
      then have "length (heap ?s ! b) + pending xs ?s < fuel"
      proof
        assume "(q, b) \<in> set (subscribersMap s)"
        then show ?thesis using assms(2) less old[of q b] by (auto simp: bounded_def)
      next
        assume "(q, b) = (p, length (heap s))"
        then show ?thesis using assms(2) less new by (simp add: bounded_def)
      qed
      then show "case e of (p, a) \<Rightarrow> length (heap ?s ! a) + pending xs ?s < fuel"
        using qb by simp
    qed
  next
    case (Some a)
    then have m: "map_of (subscribersMap s) p = Some a" by (simp add: Map_get_def)
    have nin: "Some c \<notin> set (heap s ! a)"
      using False Some by (simp add: subscribers_def Set_values_mem)
    have s': "?s = s\<lparr>heap := (heap s)[a := heap s ! a @ [Some c]]\<rparr>"
      using Some m nin by (simp add: addEventListener_def Map_set_present Set_add_def)
    have len: "length (heap ?s ! b) \<le> Suc (length (heap s ! b))" for b
      by (cases "a < length (heap s)"; cases "b = a") (simp_all add: s' list_update_beyond)
    show ?thesis
      unfolding bounded_def
    proof (intro conjI ballI)
      show "length (subscribersMap ?s) + pending xs ?s < fuel"
        using assms(2) less by (simp add: bounded_def s')
    next
      fix e assume e: "e \<in> set (subscribersMap ?s)"
      obtain q b where qb: "e = (q, b)" by (cases e)
      with e have "(q, b) \<in> set (subscribersMap s)" by (simp add: s')
      then have "length (heap s ! b) + pending xs s < fuel" using assms(2) by (auto simp: bounded_def)
      then have "length (heap ?s ! b) + pending xs ?s < fuel" using less len[of b] by simp
      then show "case e of (p, a) \<Rightarrow> length (heap ?s ! a) + pending xs ?s < fuel"
        using qb by simp
    qed
  qed
  then show ?thesis by simp
qed

lemma bounded_remove:
  assumes "wf s" and "bounded xs fuel s" and "\<forall>c. \<not> adds x c"
    and "\<forall>y \<in> set xs. \<forall>c. adds y c \<longrightarrow> \<not> removes x c"
  shows "bounded xs fuel (do_call s x)"
proof -
  have "same_shape s (do_call s x)"
    using assms(3) by (intro same_shape_do_call) (simp_all add: same_shape_def)
  then have m: "subscribersMap (do_call s x) = subscribersMap s"
    and l: "\<And>a. length (heap (do_call s x) ! a) = length (heap s ! a)"
    by (simp_all add: same_shape_def)
  have "pending xs (do_call s x) \<le> pending xs s" using assms(1,4) by (rule pending_le)
  then show ?thesis using assms(2) unfolding bounded_def m l by fastforce
qed

lemma bounded_do_call:
  assumes "wf s" and "bounded xs fuel s" and "\<forall>c. adds x c \<longrightarrow> x \<in> set xs"
    and "\<forall>y \<in> set xs. \<forall>c. adds y c \<longrightarrow> \<not> removes x c"
  shows "bounded xs fuel (do_call s x)"
proof (cases x)
  case (AddListener p c)
  with assms(3) have "AddListener p c \<in> set xs" by simp
  with assms(1,2) show ?thesis unfolding AddListener by (rule bounded_add)
next
  case (RemoveListener p c)
  then have "\<forall>c. \<not> adds x c" by simp
  with assms show ?thesis by (intro bounded_remove)
next
  case (CallUnsubscribe u)
  then have "\<forall>c. \<not> adds x c" by simp
  with assms show ?thesis by (intro bounded_remove)
qed

lemma bounded_foldl:
  assumes "wf s" and "bounded xs fuel s"
    and "\<forall>x \<in> set ys. (\<forall>c. adds x c \<longrightarrow> x \<in> set xs) \<and>
            (\<forall>y \<in> set xs. \<forall>c. adds y c \<longrightarrow> \<not> removes x c)"
  shows "wf (foldl do_call s ys) \<and> bounded xs fuel (foldl do_call s ys)"
  using assms
proof (induction ys arbitrary: s)
  case Nil
  then show ?case by simp
next
  case (Cons x ys)
  have w: "wf (do_call s x)" using Cons.prems(1) by (rule wf_do_call)
  have b: "bounded xs fuel (do_call s x)"
    using Cons.prems by (intro bounded_do_call) simp_all
  show ?case using Cons.IH[OF w b] Cons.prems(3) by simp
qed

lemma bounded_enough: "bounded xs fuel s \<Longrightarrow> enough fuel s"
  unfolding bounded_def enough_def list_all_iff by fastforce

lemma pending_length: "pending xs s \<le> length xs"
proof -
  have "pending xs s \<le> card (set xs)" unfolding pending_def by (rule card_mono) auto
  also have "\<dots> \<le> length xs" by (rule card_length)
  finally show ?thesis .
qed

lemma enough_bounded:
  assumes "enough (fuel - length xs) s"
  shows "bounded xs fuel s"
proof -
  have p: "pending xs s \<le> length xs" by (rule pending_length)
  have "length (subscribersMap s) < fuel - length xs"
    and "\<forall>e \<in> set (subscribersMap s). case e of (p, a) \<Rightarrow> length (heap s ! a) < fuel - length xs"
    using assms by (simp_all add: enough_def list_all_iff)
  with p show ?thesis unfolding bounded_def by fastforce
qed

lemma subscribing_dispatch_returns:
  assumes wf: "wf st" and en: "enough (fuel - length xs) st"
    and within: "\<forall>cb x c. x \<in> set (h cb event) \<and> adds x c \<longrightarrow> x \<in> set xs"
    and kept: "\<forall>x \<in> set xs. \<forall>c. adds x c \<longrightarrow> never_unsubscribes h event c"
  shows "\<exists>st'. notify h fuel event st = Some st'"
proof -
  let ?I = "\<lambda>s. wf s \<and> bounded xs fuel s"
  have "\<exists>st'. notify h fuel event st = Some st' \<and> ?I st'"
  proof (rule notify_returns[where I = ?I])
    show "?I st" using wf en by (simp add: enough_bounded)
  next
    fix s cb assume I: "?I s"
    have ok: "\<forall>x \<in> set (h cb event). (\<forall>c. adds x c \<longrightarrow> x \<in> set xs) \<and>
            (\<forall>y \<in> set xs. \<forall>c. adds y c \<longrightarrow> \<not> removes x c)"
      using within kept never_unsubscribes_calls by blast
    let ?t = "s\<lparr>calls := calls s @ [(cb, event)]\<rparr>"
    have "wf ?t" and "bounded xs fuel ?t" using I by simp_all
    from bounded_foldl[OF this ok] show "?I (invoke h cb event s)" by (simp add: invoke_def)
  next
    fix s assume "?I s"
    then show "enough fuel s \<and> wf s" using bounded_enough by blast
  qed
  then show ?thesis by blast
qed

subsection \<open>The dispatch over the live sets\<close>

lemma wf_st_live: "wf st_live"
  by (simp add: wf_def st_live_def)

lemma wf_st_reent: "wf st_reent"
  by (simp add: wf_def st_reent_def)

lemma st_reent_set:
  "notify h_reent 6 set_k_event st_reent =
     Some (st_reent\<lparr>calls := map (\<lambda>c. (c, set_k_event)) [1, 2, 3, 6],
                    heap := [[Some 5], [Some 1], [Some 2, Some 3, None, Some 6]]\<rparr>)"
  by (simp add: st_reent_def Map_get_def notify_def get_forEach_def
      eval_nat_numeral invoke_def h_reent_def set_k_event_def key_text_def
      removeEventListener_def addEventListener_def Set_delete_def Set_add_def)

lemma st_reent_clear:
  "notify h_reent 6 clear_event st_reent =
     Some (st_reent\<lparr>calls := map (\<lambda>c. (c, clear_event)) [5, 2, 3, 6],
                    heap := [[Some 5], [Some 1], [Some 2, Some 3, None, Some 6]]\<rparr>)"
  by (simp add: st_reent_def Map_get_def notify_def endsWith_def
      eval_nat_numeral invoke_def h_reent_def clear_event_def unsubscribe_def
      removeEventListener_def addEventListener_def Set_delete_def Set_add_def)

lemma st_reent_lookups:
  "lookups st_reent set_k_event = [''k:set'', ''*:set''] @ ''k:*'' # []"
  "lookups st_reent clear_event = [''*:*''] @ ''k:*'' # []"
  by (simp_all add: lookups_def set_k_event_def clear_event_def key_text_def clear_patterns_def
      st_reent_def endsWith_def)

lemma st_reent_matched:
  "matched st_reent set_k_event = [1, 2, 3, 4]"
  "matched st_reent clear_event = [5, 2, 3, 4]"
  by (simp_all add: matched_def st_reent_lookups subscribers_def Map_get_def)
    (simp_all add: st_reent_def)

lemma h_reent_calls:
  "never_subscribes h_reent event 4" "never_unsubscribes h_reent event 6"
  "\<forall>cb x c. x \<in> set (h_reent cb event) \<and> adds x c \<longrightarrow> x \<in> set [AddListener ''k:*'' 6]"
  "\<forall>x \<in> set [AddListener ''k:*'' 6]. \<forall>c. adds x c \<longrightarrow> never_unsubscribes h_reent event c"
  by (auto simp: never_subscribes_def never_unsubscribes_def h_reent_def)

lemma st_reent_only: "\<forall>q. q \<noteq> ''k:*'' \<longrightarrow> 4 \<notin> set (subscribers st_reent q)"
  by (auto simp: subscribers_def Map_get_def st_reent_def)

text \<open>
  Claim C3, as amended. The dispatch iterates the live subscriber set of each matched
  pattern, and no snapshot is taken.

  \<^item> When no callback calls back into the Storage object, the dispatch does what a dispatch
    over snapshots does, and it returns.
  \<^item> The dispatch returns whenever the subscriptions that its callbacks make are among
    finitely many calls \<open>xs\<close>, no callback unsubscribes a callback that \<open>xs\<close> subscribes, and
    the number of steps exceeds the sizes of the map and of its sets by the length of \<open>xs\<close>
    (with \<open>xs\<close> empty: whenever the callbacks only unsubscribe).
  \<^item> Let a dispatch return, and let \<open>c1\<close> be a callback in the set of a looked-up pattern \<open>p\<close>
    such that the callbacks invoked before \<open>c1\<close> (those of the patterns before \<open>p\<close> and
    those before \<open>c1\<close> in the set of \<open>p\<close>) make no call into the Storage object. If \<open>c1\<close>
    unsubscribes from \<open>p\<close> (with \<^verbatim>\<open>removeEventListener\<close> or with the closure) a callback \<open>c2\<close>
    that comes after \<open>c1\<close> in the set, that is subscribed under no other pattern and that
    no callback subscribes during the dispatch, then \<open>c2\<close>, subscribed under a looked-up
    pattern when the dispatch started, is not invoked by it. If \<open>c1\<close> subscribes under \<open>p\<close> a
    callback \<open>c3\<close> that was subscribed under no looked-up pattern when the dispatch started
    and that no callback unsubscribes during the dispatch, then \<open>c3\<close> is invoked by it.
\<close>

theorem live_iteration:
  "(quiet h \<and> enough fuel st \<longrightarrow>
      notify h fuel event st = notify_snapshot h fuel event st \<and> notify h fuel event st \<noteq> None)
   \<and> (wf st \<and> enough (fuel - length xs) st \<and>
       (\<forall>cb x c. x \<in> set (h cb event) \<and> adds x c \<longrightarrow> x \<in> set xs) \<and>
       (\<forall>x \<in> set xs. \<forall>c. adds x c \<longrightarrow> never_unsubscribes h event c) \<longrightarrow>
      notify h fuel event st \<noteq> None)
   \<and> (notify h fuel event st = Some st' \<and> wf st \<and> lookups st event = lpre @ p # lpost \<and>
       Map_get (subscribersMap st) p = Some a \<and> heap st ! a = pre @ Some c1 # post \<and>
       silent h event (concat (map (subscribers st) lpre) @ Set_values pre) \<longrightarrow>
      (c2 \<in> set (Set_values post) \<and>
       (RemoveListener p c2 \<in> set (h c1 event) \<or> CallUnsubscribe (a, c2) \<in> set (h c1 event)) \<and>
       never_subscribes h event c2 \<and> (\<forall>q. q \<noteq> p \<longrightarrow> c2 \<notin> set (subscribers st q)) \<longrightarrow>
         c2 \<in> set (matched st event) \<and> c2 \<notin> set (invoked st st'))
      \<and> (AddListener p c3 \<in> set (h c1 event) \<and> never_unsubscribes h event c3 \<and>
          c3 \<notin> set (matched st event) \<longrightarrow>
         c3 \<in> set (invoked st st')))"
proof (intro conjI impI)
  assume "quiet h \<and> enough fuel st"
  then show "notify h fuel event st = notify_snapshot h fuel event st"
    and "notify h fuel event st \<noteq> None"
    using notify_snapshot_quiet[of h fuel st event] by blast+
next
  assume "wf st \<and> enough (fuel - length xs) st \<and>
       (\<forall>cb x c. x \<in> set (h cb event) \<and> adds x c \<longrightarrow> x \<in> set xs) \<and>
       (\<forall>x \<in> set xs. \<forall>c. adds x c \<longrightarrow> never_unsubscribes h event c)"
  then have "\<exists>st'. notify h fuel event st = Some st'"
    by (intro subscribing_dispatch_returns[where xs = xs]) blast+
  then show "notify h fuel event st \<noteq> None" by auto
next
  assume A: "notify h fuel event st = Some st' \<and> wf st \<and> lookups st event = lpre @ p # lpost \<and>
       Map_get (subscribersMap st) p = Some a \<and> heap st ! a = pre @ Some c1 # post \<and>
       silent h event (concat (map (subscribers st) lpre) @ Set_values pre)"
    and B: "c2 \<in> set (Set_values post) \<and>
       (RemoveListener p c2 \<in> set (h c1 event) \<or> CallUnsubscribe (a, c2) \<in> set (h c1 event)) \<and>
       never_subscribes h event c2 \<and> (\<forall>q. q \<noteq> p \<longrightarrow> c2 \<notin> set (subscribers st q))"
  have "c2 \<in> set (matched st event) \<and> c2 \<notin> set (invoked st st')"
    by (rule unsubscribed_not_invoked[where h = h and fuel = fuel and lpre = lpre and p = p
          and lpost = lpost and a = a and pre = pre and ?c1.0 = c1 and post = post])
      (use A B in blast)+
  then show "c2 \<in> set (matched st event)" and "c2 \<notin> set (invoked st st')" by simp_all
next
  assume A: "notify h fuel event st = Some st' \<and> wf st \<and> lookups st event = lpre @ p # lpost \<and>
       Map_get (subscribersMap st) p = Some a \<and> heap st ! a = pre @ Some c1 # post \<and>
       silent h event (concat (map (subscribers st) lpre) @ Set_values pre)"
    and B: "AddListener p c3 \<in> set (h c1 event) \<and> never_unsubscribes h event c3 \<and>
          c3 \<notin> set (matched st event)"
  show "c3 \<in> set (invoked st st')"
    by (rule subscribed_invoked[where h = h and fuel = fuel and event = event and lpre = lpre
          and p = p and lpost = lpost and a = a and pre = pre and ?c1.0 = c1 and post = post])
      (use A B in blast)+
qed

theorem live_iteration_witness:
  "notify (\<lambda>c e. []) 3 set_k_event st_live = notify_snapshot (\<lambda>c e. []) 3 set_k_event st_live
   \<and> notify h_reent 6 set_k_event st_reent \<noteq> None
   \<and> notify h_reent 6 clear_event st_reent \<noteq> None
   \<and> (\<exists>st'. notify h_reent 6 set_k_event st_reent = Some st' \<and>
         4 \<in> set (matched st_reent set_k_event) \<and> 4 \<notin> set (invoked st_reent st') \<and>
         6 \<notin> set (matched st_reent set_k_event) \<and> 6 \<in> set (invoked st_reent st') \<and>
         invoked st_reent st' = [1, 2, 3, 6])
   \<and> (\<exists>st'. notify h_reent 6 clear_event st_reent = Some st' \<and>
         4 \<in> set (matched st_reent clear_event) \<and> 4 \<notin> set (invoked st_reent st') \<and>
         6 \<notin> set (matched st_reent clear_event) \<and> 6 \<in> set (invoked st_reent st') \<and>
         invoked st_reent st' = [5, 2, 3, 6])"
proof (intro conjI)
  have e: "enough 3 st_live" by (simp add: enough_def st_live_def)
  from live_iteration[of "\<lambda>c e. []" 3 st_live set_k_event] quiet_none e
  show "notify (\<lambda>c e. []) 3 set_k_event st_live = notify_snapshot (\<lambda>c e. []) 3 set_k_event st_live"
    by blast
next
  have e: "enough (6 - length [AddListener ''k:*'' 6]) st_reent"
    by (simp add: enough_def st_reent_def)
  from live_iteration[where h = h_reent and fuel = 6 and st = st_reent and event = set_k_event
      and xs = "[AddListener ''k:*'' 6]"] wf_st_reent e h_reent_calls(3,4)[of set_k_event]
  show "notify h_reent 6 set_k_event st_reent \<noteq> None" by blast
next
  have e: "enough (6 - length [AddListener ''k:*'' 6]) st_reent"
    by (simp add: enough_def st_reent_def)
  from live_iteration[where h = h_reent and fuel = 6 and st = st_reent and event = clear_event
      and xs = "[AddListener ''k:*'' 6]"] wf_st_reent e h_reent_calls(3,4)[of clear_event]
  show "notify h_reent 6 clear_event st_reent \<noteq> None" by blast
next
  let ?st' = "st_reent\<lparr>calls := map (\<lambda>c. (c, set_k_event)) [1, 2, 3, 6],
                    heap := [[Some 5], [Some 1], [Some 2, Some 3, None, Some 6]]\<rparr>"
  have m: "Map_get (subscribersMap st_reent) ''k:*'' = Some 2"
    and hp: "heap st_reent ! 2 = [Some 2] @ Some 3 # [Some 4]"
    by (simp_all add: st_reent_def Map_get_def)
  have sil: "silent h_reent set_k_event
      (concat (map (subscribers st_reent) [''k:set'', ''*:set'']) @ Set_values [Some 2])"
    by (simp add: silent_def subscribers_def Map_get_def st_reent_def h_reent_def)
  have c2: "4 \<in> set (Set_values [Some 4])"
    and rm: "RemoveListener ''k:*'' 4 \<in> set (h_reent 3 set_k_event)"
    and ad: "AddListener ''k:*'' 6 \<in> set (h_reent 3 set_k_event)"
    by (simp_all add: h_reent_def set_k_event_def)
  have nm: "6 \<notin> set (matched st_reent set_k_event)"
    by (simp add: st_reent_matched)
  from live_iteration[where h = h_reent and fuel = 6 and st = st_reent and event = set_k_event
      and st' = ?st' and lpre = "[''k:set'', ''*:set'']" and p = "''k:*''" and lpost = "[]"
      and a = 2 and pre = "[Some 2]" and ?c1.0 = 3 and post = "[Some 4]" and ?c2.0 = 4
      and ?c3.0 = 6]
    st_reent_set wf_st_reent st_reent_lookups(1) m hp sil c2 rm ad nm
    h_reent_calls(1,2)[of set_k_event] st_reent_only
  have "4 \<in> set (matched st_reent set_k_event) \<and> 4 \<notin> set (invoked st_reent ?st') \<and>
        6 \<in> set (invoked st_reent ?st')"
    by blast
  moreover have "invoked st_reent ?st' = [1, 2, 3, 6]"
    by (simp add: invoked_def st_reent_def)
  ultimately show "\<exists>st'. notify h_reent 6 set_k_event st_reent = Some st' \<and>
         4 \<in> set (matched st_reent set_k_event) \<and> 4 \<notin> set (invoked st_reent st') \<and>
         6 \<notin> set (matched st_reent set_k_event) \<and> 6 \<in> set (invoked st_reent st') \<and>
         invoked st_reent st' = [1, 2, 3, 6]"
    using st_reent_set nm by blast
next
  let ?st' = "st_reent\<lparr>calls := map (\<lambda>c. (c, clear_event)) [5, 2, 3, 6],
                    heap := [[Some 5], [Some 1], [Some 2, Some 3, None, Some 6]]\<rparr>"
  have m: "Map_get (subscribersMap st_reent) ''k:*'' = Some 2"
    and hp: "heap st_reent ! 2 = [Some 2] @ Some 3 # [Some 4]"
    by (simp_all add: st_reent_def Map_get_def)
  have sil: "silent h_reent clear_event
      (concat (map (subscribers st_reent) [''*:*'']) @ Set_values [Some 2])"
    by (simp add: silent_def subscribers_def Map_get_def st_reent_def h_reent_def)
  have c2: "4 \<in> set (Set_values [Some 4])"
    and rm: "CallUnsubscribe (2, 4) \<in> set (h_reent 3 clear_event)"
    and ad: "AddListener ''k:*'' 6 \<in> set (h_reent 3 clear_event)"
    by (simp_all add: h_reent_def clear_event_def)
  have nm: "6 \<notin> set (matched st_reent clear_event)"
    by (simp add: st_reent_matched)
  from live_iteration[where h = h_reent and fuel = 6 and st = st_reent and event = clear_event
      and st' = ?st' and lpre = "[''*:*'']" and p = "''k:*''" and lpost = "[]"
      and a = 2 and pre = "[Some 2]" and ?c1.0 = 3 and post = "[Some 4]" and ?c2.0 = 4
      and ?c3.0 = 6]
    st_reent_clear wf_st_reent st_reent_lookups(2) m hp sil c2 rm ad nm
    h_reent_calls(1,2)[of clear_event] st_reent_only
  have "4 \<in> set (matched st_reent clear_event) \<and> 4 \<notin> set (invoked st_reent ?st') \<and>
        6 \<in> set (invoked st_reent ?st')"
    by blast
  moreover have "invoked st_reent ?st' = [5, 2, 3, 6]"
    by (simp add: invoked_def st_reent_def)
  ultimately show "\<exists>st'. notify h_reent 6 clear_event st_reent = Some st' \<and>
         4 \<in> set (matched st_reent clear_event) \<and> 4 \<notin> set (invoked st_reent st') \<and>
         6 \<notin> set (matched st_reent clear_event) \<and> 6 \<in> set (invoked st_reent st') \<and>
         invoked st_reent st' = [5, 2, 3, 6]"
    using st_reent_clear nm by blast
qed

end
